theory Spec2Isabelle
  imports Main "HOL-Library.Word" "HOL-Library.Sublist"
begin

unbundle bit_operations_syntax

section \<open>The HTTPS downloader of Vita3K\<close>

text \<open>
  A shallow embedding of the namespace \<open>https\<close>: the transport open operation \<open>init\<close>,
  \<open>get_web_response\<close>, the header parsers \<open>get_file_size\<close> and \<open>get_content_md5\<close>, the
  file hasher \<open>calculate_md5_file\<close> and the orchestrator \<open>download_file\<close>.

  A \<open>std::string\<close> is a \<open>string\<close> (a list of 8-bit characters); bytes read from the
  network and file contents are strings too. Sizes are natural numbers. What the
  operating system, OpenSSL and the caller answer is an explicit parameter of the model.
\<close>

subsection \<open>String primitives of the standard library\<close>

text \<open>\<open>s.find(pat)\<close>: the first position where \<open>pat\<close> occurs, \<open>None\<close> for \<open>npos\<close>.\<close>

fun find_str :: "string \<Rightarrow> string \<Rightarrow> nat option" where
  "find_str [] pat = (if pat = [] then Some 0 else None)"
| "find_str (c # cs) pat =
     (if prefix pat (c # cs) then Some 0 else map_option Suc (find_str cs pat))"

text \<open>\<open>s.find(pat, pos)\<close>: the search starts at \<open>pos\<close>.\<close>

definition find_from :: "string \<Rightarrow> string \<Rightarrow> nat \<Rightarrow> nat option" where
  "find_from s pat pos =
     (if length s < pos then None
      else map_option (\<lambda>i. i + pos) (find_str (drop pos s) pat))"

text \<open>\<open>s.find(pat) != std::string::npos\<close>.\<close>

definition contains :: "string \<Rightarrow> string \<Rightarrow> bool" where
  "contains s pat = (find_str s pat \<noteq> None)"

text \<open>
  \<open>s.substr(pos, n)\<close> and \<open>s.substr(pos)\<close>. The source calls them only with
  \<open>pos \<le> s.size()\<close> (positions returned by \<open>find\<close>), where they do not throw.
\<close>

definition substr :: "string \<Rightarrow> nat \<Rightarrow> nat \<Rightarrow> string" where
  "substr s pos n = take n (drop pos s)"

definition substr_from :: "string \<Rightarrow> nat \<Rightarrow> string" where
  "substr_from s pos = drop pos s"

text \<open>\<open>std::to_string\<close> on an unsigned integer: its decimal digits.\<close>

definition digit_char :: "nat \<Rightarrow> char" where
  "digit_char d = ''0123456789'' ! d"

fun to_string :: "nat \<Rightarrow> string" where
  "to_string n = (if n < 10 then [digit_char n] else to_string (n div 10) @ [digit_char (n mod 10)])"

declare to_string.simps [simp del]

text \<open>\<open>std::isspace\<close> in the "C" locale, and the digits \<open>\d\<close> of \<open>std::regex\<close>.\<close>

definition isspace :: "char \<Rightarrow> bool" where
  "isspace c = (c \<in> set [CHR '' '', CHR 0x09, CHR 0x0A, CHR 0x0B, CHR 0x0C, CHR 0x0D])"

definition isdigit :: "char \<Rightarrow> bool" where
  "isdigit c = (c \<in> set ''0123456789'')"

subsection \<open>The three header patterns\<close>

text \<open>
  \<open>std::regex_search\<close> returns the leftmost match. Each pattern of the source is a
  literal, then one of a few literal heads that belong to the capture, then a greedy
  non-empty run of one character class that ends the pattern; so the capture at a
  position is the head and the longest run of the class after it, and the search
  moves right until a position matches.
\<close>

fun match_heads :: "string list \<Rightarrow> (char \<Rightarrow> bool) \<Rightarrow> string \<Rightarrow> string option" where
  "match_heads [] cls s = None"
| "match_heads (h # hs) cls s =
     (if prefix h s \<and> takeWhile cls (drop (length h) s) \<noteq> []
      then Some (h @ takeWhile cls (drop (length h) s))
      else match_heads hs cls s)"

definition match_here :: "string \<Rightarrow> string list \<Rightarrow> (char \<Rightarrow> bool) \<Rightarrow> string \<Rightarrow> string option" where
  "match_here lit heads cls s =
     (if prefix lit s then match_heads heads cls (drop (length lit) s) else None)"

fun regex_search :: "string \<Rightarrow> string list \<Rightarrow> (char \<Rightarrow> bool) \<Rightarrow> string \<Rightarrow> string option" where
  "regex_search lit heads cls [] = None"
| "regex_search lit heads cls (c # cs) =
     (case match_here lit heads cls (c # cs) of
        Some cap \<Rightarrow> Some cap
      | None \<Rightarrow> regex_search lit heads cls cs)"

text \<open>\<open>Content-Length: (\d+)\<close>\<close>

definition search_content_length :: "string \<Rightarrow> string option" where
  "search_content_length header = regex_search ''Content-Length: '' [[]] isdigit header"

text \<open>\<open>Content-MD5: ([-A-Za-z0-9+/=]+)\<close>\<close>

definition md5_class :: "char \<Rightarrow> bool" where
  "md5_class c =
     (c \<in> set ''-ABCDEFGHIJKLMNOPQRSTUVWXYZabcdefghijklmnopqrstuvwxyz0123456789+/='')"

definition search_content_md5 :: "string \<Rightarrow> string option" where
  "search_content_md5 header = regex_search ''Content-MD5: '' [[]] md5_class header"

text \<open>\<open>Location: (https?://[^\s]+)\<close>\<close>

definition search_location :: "string \<Rightarrow> string option" where
  "search_location response =
     regex_search ''Location: '' [''https://'', ''http://''] (\<lambda>c. \<not> isspace c) response"

subsection \<open>The transport: URL parsing and the request\<close>

text \<open>Lines 89 to 102 of \<open>init\<close>: \<open>host\<close> and \<open>uri\<close> start empty.\<close>

definition parse_url :: "string \<Rightarrow> string \<times> string" where
  "parse_url url =
     (case find_str url ''://'' of
        None \<Rightarrow> ([], [])
      | Some start0 \<Rightarrow>
          (let start = start0 + 3 in
           case find_from url ''/'' start of
             Some end \<Rightarrow> (substr url start (end - start), substr_from url end)
           | None \<Rightarrow> (substr_from url start, ''/'')))"

definition CRLF :: string where
  "CRLF = [CHR 0x0D, CHR 0x0A]"

text \<open>Lines 172 to 180 of \<open>init\<close>: the request grows by appending.\<close>

definition build_request :: "string \<Rightarrow> string \<Rightarrow> string \<Rightarrow> nat \<Rightarrow> string" where
  "build_request method uri host downloaded_file_size =
     (let request = method @ '' '' @ uri @ '' HTTP/1.1'' @ CRLF;
          request = request @ (''Host: '' @ host @ CRLF);
          request = (if 0 < downloaded_file_size
                     then (request @ (''Accept-Ranges: bytes'' @ CRLF))
                            @ (''Range: bytes='' @ to_string downloaded_file_size @ ''-'' @ CRLF)
                     else request);
          request = request @ (''User-Agent: OpenSSL/1.1.1'' @ CRLF);
          request = request @ (''Connection: close'' @ CRLF @ CRLF)
      in request)"

subsection \<open>The transport: opening a session\<close>

text \<open>
  What the system and OpenSSL answer during one call of \<open>init\<close>: whether
  \<open>SSL_CTX_new\<close> gives a context, the values returned by \<open>socket\<close>, \<open>getaddrinfo\<close>
  (with whether it stored an address list), \<open>connect\<close>, \<open>getsockopt\<close> (with the
  \<open>SO_ERROR\<close> it stored), \<open>SSL_connect\<close> and \<open>SSL_write\<close>, and what the peer then
  sends: the payloads of its TLS records, and the error that ends the stream
  (\<open>0\<close> for an orderly close, \<open>e > 0\<close> when \<open>SSL_read\<close> then returns \<open>-e\<close>).
  \<open>SSL_new\<close> is taken to give a handle (allocation does not fail).
\<close>

record syscalls =
  ssl_ctx_new_ok :: bool
  socket_ret :: int
  getaddrinfo_ret :: int
  getaddrinfo_result :: bool
  connect_ret :: int
  getsockopt_ret :: int
  so_error :: int
  ssl_connect_ret :: int
  ssl_write_ret :: int
  incoming :: "string list"
  read_failure :: nat

type_synonym stream = "string list \<times> nat"

text \<open>\<open>struct Https\<close>: a null \<open>ssl\<close> is \<open>None\<close>; an established one is the stream to read.\<close>

record Https =
  ssl :: "stream option"
  sockfd :: int

text \<open>
  The resources \<open>init\<close> acquires. \<open>live\<close> holds those acquired and not yet released
  when \<open>init\<close> returns; \<open>sent\<close> is the request \<open>SSL_write\<close> accepted.
\<close>

datatype resource = SslCtx | Socket | AddrInfo | SslHandle

record opened =
  https :: Https
  live :: "resource set"
  sent :: "string option"

text \<open>\<open>return {};\<close>\<close>

definition no_https :: Https where
  "no_https = \<lparr>ssl = None, sockfd = 0\<rparr>"

text \<open>
  \<open>init\<close> (the branch without \<open>WIN32\<close>). Each \<open>insert\<close> is an acquisition, each set
  difference one of \<open>freeaddrinfo\<close>, \<open>SSL_CTX_free\<close>, \<open>close_ssl\<close>, \<open>close_socket\<close>,
  in the order of the source.
\<close>

definition init :: "syscalls \<Rightarrow> string \<Rightarrow> string \<Rightarrow> nat \<Rightarrow> opened" where
  "init sys url method downloaded_file_size =
     (if \<not> ssl_ctx_new_ok sys then \<lparr>https = no_https, live = {}, sent = None\<rparr>
      else let held = {SslCtx}; fd = socket_ret sys in
      if fd < 0 then \<lparr>https = no_https, live = held - {SslCtx}, sent = None\<rparr>
      else let held = insert Socket held;
               (host, uri) = parse_url url;
               held = (if getaddrinfo_result sys then insert AddrInfo held else held) in
      if getaddrinfo_ret sys < 0 \<or> \<not> getaddrinfo_result sys then
        \<lparr>https = no_https,
         live = (if \<not> getaddrinfo_result sys then held else held - {AddrInfo})
                  - {SslCtx} - {Socket},
         sent = None\<rparr>
      else if connect_ret sys < 0 then
        \<lparr>https = no_https, live = held - {AddrInfo} - {SslCtx} - {Socket}, sent = None\<rparr>
      else if getsockopt_ret sys < 0 then
        \<lparr>https = no_https, live = held - {AddrInfo} - {SslCtx} - {Socket}, sent = None\<rparr>
      else if so_error sys \<noteq> 0 then
        \<lparr>https = no_https, live = held - {AddrInfo} - {SslCtx} - {Socket}, sent = None\<rparr>
      else let held = insert SslHandle held in
      if ssl_connect_ret sys \<le> 0 then
        \<lparr>https = no_https,
         live = held - {AddrInfo} - {SslCtx} - {SslHandle} - {Socket}, sent = None\<rparr>
      else let request = build_request method uri host downloaded_file_size in
      if ssl_write_ret sys \<le> 0 then
        \<lparr>https = no_https,
         live = held - {AddrInfo} - {SslCtx} - {SslHandle} - {Socket}, sent = None\<rparr>
      else \<lparr>https = \<lparr>ssl = Some (incoming sys, read_failure sys), sockfd = fd\<rparr>,
            live = held - {AddrInfo} - {SslCtx},
            sent = Some request\<rparr>)"

text \<open>Every step of the set-up succeeded.\<close>

definition established :: "syscalls \<Rightarrow> bool" where
  "established sys =
     (ssl_ctx_new_ok sys \<and> 0 \<le> socket_ret sys
      \<and> 0 \<le> getaddrinfo_ret sys \<and> getaddrinfo_result sys
      \<and> 0 \<le> connect_ret sys
      \<and> 0 \<le> getsockopt_ret sys \<and> so_error sys = 0
      \<and> 0 < ssl_connect_ret sys
      \<and> 0 < ssl_write_ret sys)"

text \<open>
  \<open>SSL_read(ssl, buf, num)\<close>: the bytes come from the record at the front, at most
  \<open>num\<close> of them, and the rest of the record stays for the next call; once the
  records are used up the call returns \<open>0\<close>, or the negated error. The result is
  the returned \<open>int\<close>, the bytes stored in the buffer and the stream that remains.
\<close>

fun SSL_read :: "stream \<Rightarrow> nat \<Rightarrow> int \<times> string \<times> stream" where
  "SSL_read ([], e) num = (- int e, [], ([], e))"
| "SSL_read (r # rs, e) num =
     (if r = [] then SSL_read (rs, e) num
      else (int (min num (length r)), take num r,
            (if drop num r = [] then rs else drop num r # rs, e)))"

subsection \<open>Faults\<close>

text \<open>
  Ways the C++ leaves normal control flow: \<open>std::string(buf, n)\<close> with a negative
  \<open>int n\<close> throws \<open>std::length_error\<close>; \<open>std::stoll\<close> throws \<open>std::out_of_range\<close>;
  a write past the end of \<open>md5_bytes\<close> and a read past the end of \<open>read_buffer\<close>
  are undefined behaviour.
\<close>

datatype fault = LengthError | OutOfRange | BufferOverflow | BufferOverread

subsection \<open>Header parser\<close>

text \<open>\<open>get_file_size\<close>: \<open>std::stoll\<close> reads the digits as a \<open>long long\<close>.\<close>

fun digits_value :: "string \<Rightarrow> nat \<Rightarrow> nat" where
  "digits_value [] acc = acc"
| "digits_value (c # cs) acc = digits_value cs (10 * acc + (of_char c - 48))"

definition stoll :: "string \<Rightarrow> fault + nat" where
  "stoll s = (if digits_value s 0 < 2 ^ 63 then Inr (digits_value s 0) else Inl OutOfRange)"

definition get_file_size :: "string \<Rightarrow> fault + nat" where
  "get_file_size header =
     (case search_content_length header of
        Some file_size_str \<Rightarrow>
          (if list_all isdigit file_size_str then stoll file_size_str else Inr 0)
      | None \<Rightarrow> Inr 0)"

type_synonym byte = "8 word"

definition MD5_DIGEST_LENGTH :: nat where
  "MD5_DIGEST_LENGTH = 16"

definition hex_digit :: "nat \<Rightarrow> char" where
  "hex_digit d = ''0123456789ABCDEF'' ! d"

text \<open>\<open>sprintf("%02X", b)\<close>\<close>

definition hex2 :: "byte \<Rightarrow> string" where
  "hex2 b = [hex_digit (unat b div 16), hex_digit (unat b mod 16)]"

text \<open>\<open>convert_md5_bytes_to_str\<close> reads \<open>md5_bytes[0]\<close> to \<open>md5_bytes[15]\<close>.\<close>

definition convert_md5_bytes_to_str :: "byte list \<Rightarrow> string" where
  "convert_md5_bytes_to_str md5_bytes =
     concat (map (\<lambda>i. hex2 (md5_bytes ! i)) [0..<MD5_DIGEST_LENGTH])"

text \<open>
  A 16-byte array whose content the program did not choose (the result of OpenSSL's
  \<open>MD5\<close>, or an array not yet initialised) is a 128-bit word; these are its bytes.
\<close>

definition array16 :: "128 word \<Rightarrow> byte list" where
  "array16 w = map (\<lambda>i. ucast (drop_bit (8 * (15 - i)) w)) [0..<16]"

definition base64_chars :: string where
  "base64_chars = ''ABCDEFGHIJKLMNOPQRSTUVWXYZabcdefghijklmnopqrstuvwxyz0123456789+/''"

text \<open>The locals of the decoding loop of \<open>get_content_md5\<close>.\<close>

record decoder =
  md5_bytes :: "byte list"
  md5_i :: nat
  accum :: "32 word"
  accum_bits :: nat

datatype decoded = InvalidChar | PastEnd | Finished decoder

text \<open>
  The loop over the captured text. \<open>md5_bytes[i++] = ...\<close> has no bound check: with
  \<open>i = 16\<close> (here \<open>md5_i\<close>) it writes past the array (\<open>PastEnd\<close>).
\<close>

fun decode_loop :: "string \<Rightarrow> decoder \<Rightarrow> decoded" where
  "decode_loop [] st = Finished st"
| "decode_loop (c # cs) st =
     (if isspace c \<or> c = CHR ''='' then decode_loop cs st
      else case find_str base64_chars [c] of
        None \<Rightarrow> InvalidChar
      | Some char_value \<Rightarrow>
          (let acc = push_bit 6 (accum st) OR of_nat char_value;
               bits = accum_bits st + 6
           in if 8 \<le> bits
              then (if md5_i st < MD5_DIGEST_LENGTH
                    then decode_loop cs
                           \<lparr>md5_bytes = (md5_bytes st)[md5_i st := ucast (drop_bit (bits - 8) acc AND 0xFF)],
                            md5_i = md5_i st + 1, accum = acc, accum_bits = bits - 8\<rparr>
                    else PastEnd)
              else decode_loop cs (st\<lparr>accum := acc, accum_bits := bits\<rparr>)))"

text \<open>
  \<open>get_content_md5\<close>; \<open>uninit\<close> is what the array \<open>md5_bytes\<close> holds before the loop
  (it is declared without an initialiser). The empty string is the failure value.
\<close>

definition get_content_md5 :: "128 word \<Rightarrow> string \<Rightarrow> fault + string" where
  "get_content_md5 uninit header =
     (case search_content_md5 header of
        None \<Rightarrow> Inr []
      | Some content_md5_base64 \<Rightarrow>
          (case decode_loop content_md5_base64
                  \<lparr>md5_bytes = array16 uninit, md5_i = 0, accum = 0, accum_bits = 0\<rparr> of
             InvalidChar \<Rightarrow> Inr []
           | PastEnd \<Rightarrow> Inl BufferOverflow
           | Finished st \<Rightarrow> Inr (convert_md5_bytes_to_str (md5_bytes st))))"

subsection \<open>Local integrity hasher\<close>

text \<open>
  OpenSSL's MD5 is a parameter \<open>md5\<close> from the message to its digest. The context
  holds the bytes fed so far.
\<close>

definition MD5_Update :: "string \<Rightarrow> string \<Rightarrow> string" where
  "MD5_Update md5_context chunk = md5_context @ chunk"

definition MD5_Final :: "(string \<Rightarrow> 128 word) \<Rightarrow> string \<Rightarrow> byte list" where
  "MD5_Final md5 md5_context = array16 (md5 md5_context)"

text \<open>
  \<open>while (!file.eof()) { file.read(buffer, 1024); MD5_Update(..., file.gcount()); }\<close>:
  a read that cannot fill the buffer takes what is left and sets \<open>eof\<close>.
\<close>

function hash_chunks :: "string \<Rightarrow> string \<Rightarrow> string" where
  "hash_chunks unread md5_context =
     (if length unread < 1024 then MD5_Update md5_context unread
      else hash_chunks (drop 1024 unread) (MD5_Update md5_context (take 1024 unread)))"
  by pat_completeness auto
termination
  by (relation "measure (\<lambda>(unread, md5_context). length unread)") auto

declare hash_chunks.simps [simp del]

type_synonym filesystem = "string \<Rightarrow> string option"

definition calculate_md5_file :: "(string \<Rightarrow> 128 word) \<Rightarrow> filesystem \<Rightarrow> string \<Rightarrow> string" where
  "calculate_md5_file md5 files file_path =
     (case files file_path of
        None \<Rightarrow> []
      | Some bytes \<Rightarrow> convert_md5_bytes_to_str (MD5_Final md5 (hash_chunks bytes [])))"

subsection \<open>The 99% tolerance\<close>

text \<open>
  The two comparisons are done in binary floating point: \<open>bytes_read < header_size * 0.99f\<close>
  in \<open>float\<close> (24 significant bits) and \<open>downloaded_file_size < file_size * 0.99\<close> in
  \<open>double\<close> (53 significant bits), each integer converted first, each operation
  rounded to nearest, ties to even. All values are non-negative and far from the
  exponent limits, so a value is a natural number scaled by a power of two.
\<close>

fun bit_length :: "nat \<Rightarrow> nat" where
  "bit_length n = (if n = 0 then 0 else Suc (bit_length (n div 2)))"

declare bit_length.simps [simp del]

text \<open>\<open>round_fp p n\<close>: the nearest number to \<open>n\<close> with at most \<open>p\<close> significant bits.\<close>

definition round_fp :: "nat \<Rightarrow> nat \<Rightarrow> nat" where
  "round_fp p n =
     (if bit_length n \<le> p then n
      else let k = bit_length n - p;
               q = n div 2 ^ k;
               r = n mod 2 ^ k;
               half = 2 ^ (k - 1)
           in (if half < r \<or> (r = half \<and> odd q) then q + 1 else q) * 2 ^ k)"

text \<open>
  \<open>0.99f\<close> is \<open>16609444 / 2^24\<close> and \<open>0.99\<close> is \<open>8917127262193582 / 2^53\<close>.
  \<open>less_99 p m a b\<close> is \<open>a < b * c\<close> computed with \<open>p\<close> significant bits, for the
  constant \<open>c = m / 2^p\<close>.
\<close>

definition less_99 :: "nat \<Rightarrow> nat \<Rightarrow> nat \<Rightarrow> nat \<Rightarrow> bool" where
  "less_99 p m a b = (round_fp p a * 2 ^ p < round_fp p (round_fp p b * m))"

definition header_short :: "nat \<Rightarrow> nat \<Rightarrow> bool" where
  "header_short bytes_read header_size = less_99 24 16609444 bytes_read header_size"

definition size_short :: "nat \<Rightarrow> nat \<Rightarrow> bool" where
  "size_short downloaded_file_size file_size =
     less_99 53 8917127262193582 downloaded_file_size file_size"

subsection \<open>The world of one download\<close>

text \<open>
  \<open>net n u method offset\<close> is what the system answers to the call of \<open>init\<close> for
  \<open>u\<close>, \<open>method\<close> and \<open>offset\<close> made after \<open>n\<close> earlier calls; \<open>md5\<close> is OpenSSL's
  hash; \<open>uninit\<close> is the content of the uninitialised array of \<open>get_content_md5\<close>;
  \<open>initial_state\<close> is the value of \<open>ProgressState{}\<close>, the default member values of
  the struct (declared in \<open>https/functions.h\<close>). \<open>room path\<close> says what becomes of
  an \<open>std::ofstream\<close> opened on \<open>path\<close> for appending: \<open>None\<close> when the file cannot
  be opened for writing, \<open>Some n\<close> when it can and \<open>n\<close> more bytes can be written to
  it before a write fails.
\<close>

record ProgressState =
  download :: bool
  pause :: bool

record env =
  net :: "nat \<Rightarrow> string \<Rightarrow> string \<Rightarrow> nat \<Rightarrow> syscalls"
  md5 :: "string \<Rightarrow> 128 word"
  uninit :: "128 word"
  initial_state :: ProgressState
  room :: "string \<Rightarrow> nat option"

text \<open>
  The progress callback is an empty \<open>std::function\<close> (\<open>None\<close>) or answers its
  \<open>n\<close>-th invocation with a control signal. Its two arguments, the percentage and
  the remaining time, are floating-point and wall-clock values and are not modelled;
  neither is the sleep of the pause branch.
\<close>

type_synonym ProgressCallback = "(nat \<Rightarrow> ProgressState) option"

datatype level = ERROR | WARN

text \<open>
  The state of one call of \<open>download_file\<close>: its local variables, the files on disk,
  the calls of \<open>init\<close> made so far (URL, method and resume offset), the number of
  callback invocations, and the \<open>LOG_ERROR\<close> and \<open>LOG_WARN\<close> calls of the body of
  \<open>download_file\<close> with their format strings. A file on disk is a file that can be
  read. The stream \<open>outfile\<close> is \<open>Some n\<close> while it is open and in a good state, with
  room for \<open>n\<close> more bytes, and \<open>None\<close> otherwise (not open, or failed); the bytes of
  a write are taken to reach the file at once, the file being read again only after
  \<open>outfile.close()\<close>.
\<close>

record task =
  url :: string
  response :: string
  content_md5 :: string
  file_size :: nat
  downloaded_file_size :: nat
  https_ssl :: stream
  read_buffer :: string
  bytes_read :: nat
  progress_state :: ProgressState
  files :: filesystem
  outfile :: "nat option"
  requests :: "(string \<times> string \<times> nat) list"
  calls :: nat
  log :: "(level \<times> string) list"

definition start_task :: "env \<Rightarrow> filesystem \<Rightarrow> string \<Rightarrow> task" where
  "start_task e fs u =
     \<lparr>url = u, response = [], content_md5 = [], file_size = 0, downloaded_file_size = 0,
      https_ssl = ([], 0), read_buffer = [], bytes_read = 0,
      progress_state = initial_state e, files = fs, outfile = None, requests = [],
      calls = 0, log = []\<rparr>"

definition log_add :: "level \<Rightarrow> string \<Rightarrow> task \<Rightarrow> task" where
  "log_add lv msg t = t\<lparr>log := log t @ [(lv, msg)]\<rparr>"

text \<open>
  A step of \<open>download_file\<close> throws or runs into undefined behaviour (\<open>Raise\<close>, with
  the state at that moment), executes a \<open>return\<close> statement (\<open>Return\<close>), or goes on
  to the next step.
\<close>

datatype 'a flow = Raise fault task | Return bool task | Next 'a

fun then_flow :: "'a flow \<Rightarrow> ('a \<Rightarrow> 'b flow) \<Rightarrow> 'b flow" where
  "then_flow (Raise f t) k = Raise f t"
| "then_flow (Return b t) k = Return b t"
| "then_flow (Next a) k = k a"

subsection \<open>\<open>get_web_response\<close>\<close>

text \<open>
  The reading loop of \<open>get_web_response\<close>, with its buffer of 1024 bytes. A negative
  \<open>bytes_read\<close> is non-zero, so the body runs and \<open>std::string(data, bytes_read)\<close>
  throws.
\<close>

function read_response :: "stream \<Rightarrow> string \<Rightarrow> fault + string" where
  "read_response strm resp =
     (case SSL_read strm 1024 of
        (n, buf, strm') \<Rightarrow>
          if n = 0 then Inr resp
          else if n < 0 then Inl LengthError
          else read_response strm' (resp @ buf))"
  by pat_completeness auto
termination
proof (relation "measure (\<lambda>(strm, resp). sum_list (map length (fst strm)))")
  show "wf (measure (\<lambda>(strm, resp). sum_list (map length (fst strm))))"
    by simp
next
  fix strm :: stream and resp :: string and n :: int
    and y :: "string \<times> stream" and buf :: string and strm' :: stream
  assume a: "(n, y) = SSL_read strm 1024" "(buf, strm') = y" "n \<noteq> 0" "\<not> n < 0"
  have dec: "SSL_read (rs, e) 1024 = (m, b, s') \<Longrightarrow> 0 < m
      \<Longrightarrow> sum_list (map length (fst s')) < sum_list (map length rs)" for rs e m b s'
  proof (induction rs)
    case Nil
    then show ?case by simp
  next
    case (Cons r rs)
    then show ?case
      by (cases "r = []") (auto split: if_splits)
  qed
  obtain rs e where strm: "strm = (rs, e)"
    by (cases strm)
  from a have "SSL_read (rs, e) 1024 = (n, buf, strm')" and "0 < n"
    by (simp_all add: strm [symmetric])
  then have "sum_list (map length (fst strm')) < sum_list (map length rs)"
    by (rule dec)
  then show "((strm', resp @ buf), (strm, resp))
      \<in> measure (\<lambda>(strm, resp). sum_list (map length (fst strm)))"
    by (simp add: strm)
qed

declare read_response.simps [simp del]

text \<open>
  \<open>get_web_response(url, method)\<close>: opens with resume offset \<open>0\<close>, reads to the end of
  the stream, and answers a response that holds the 404 marker with the empty string.
  The result is the fault or the returned string, and the state with the call of
  \<open>init\<close> recorded.
\<close>

definition get_web_response :: "env \<Rightarrow> task \<Rightarrow> string \<Rightarrow> string \<Rightarrow> (fault + string) \<times> task" where
  "get_web_response e t u method =
     (let conn = init (net e (length (requests t)) u method 0) u method 0;
          t = t\<lparr>requests := requests t @ [(u, method, 0)]\<rparr>
      in case ssl (https conn) of
           None \<Rightarrow> (Inr [], t)
         | Some strm \<Rightarrow>
             (case read_response strm [] of
                Inl f \<Rightarrow> (Inl f, t)
              | Inr resp \<Rightarrow>
                  if contains resp ''HTTP/1.1 404 Not Found'' then (Inr [], t)
                  else (Inr resp, t)))"

subsection \<open>\<open>download_file\<close>, step by step\<close>

text \<open>Lines 343 to 350: the probe.\<close>

definition probe :: "env \<Rightarrow> task \<Rightarrow> task flow" where
  "probe e t =
     (case get_web_response e t (url t) ''HEAD'' of
        (Inl f, t) \<Rightarrow> Raise f t
      | (Inr resp, t) \<Rightarrow>
          (let t = t\<lparr>response := resp\<rparr>
           in if response t = []
              then Return False (log_add ERROR ''Failed to get header on url: {}'' t)
              else Next t))"

text \<open>Lines 352 to 369: one redirection is followed.\<close>

definition follow_redirect :: "env \<Rightarrow> task \<Rightarrow> task flow" where
  "follow_redirect e t =
     (if contains (response t) ''HTTP/1.1 302 Found'' then
        (case search_location (response t) of
           None \<Rightarrow>
             Return False (log_add ERROR ''No success found redirection location:\<newline>{}'' t)
         | Some location \<Rightarrow>
             (let t = t\<lparr>url := location\<rparr>
              in case get_web_response e t (url t) ''HEAD'' of
                   (Inl f, t) \<Rightarrow> Raise f t
                 | (Inr resp, t) \<Rightarrow>
                     (let t = t\<lparr>response := resp\<rparr>
                      in if response t = []
                         then Return False
                                (log_add ERROR ''Failed to get header on redirected url: {}'' t)
                         else Next t)))
      else Next t)"

text \<open>Lines 371 to 375.\<close>

definition not_found_check :: "task \<Rightarrow> task flow" where
  "not_found_check t =
     (if contains (response t) ''HTTP/1.1 404 Not Found''
      then Return False (log_add ERROR ''404 Not Found'' t)
      else Next t)"

text \<open>Lines 377 to 389: the checksum first, then the size.\<close>

definition read_metadata :: "env \<Rightarrow> task \<Rightarrow> task flow" where
  "read_metadata e t =
     (case get_content_md5 (uninit e) (response t) of
        Inl f \<Rightarrow> Raise f t
      | Inr m \<Rightarrow>
          (let t = t\<lparr>content_md5 := m\<rparr>
           in if content_md5 t = []
              then Return False (log_add ERROR ''Failed to get Content-MD5 on header: {}'' t)
              else case get_file_size (response t) of
                     Inl f \<Rightarrow> Raise f t
                   | Inr n \<Rightarrow>
                       (let t = t\<lparr>file_size := n\<rparr>
                        in if file_size t = 0
                           then Return False (log_add ERROR ''Failed to get file size'' t)
                           else Next t)))"

text \<open>The probe as a whole: the response the metadata is read from.\<close>

definition probed :: "env \<Rightarrow> filesystem \<Rightarrow> string \<Rightarrow> task flow" where
  "probed e fs u =
     then_flow (then_flow (probe e (start_task e fs u)) (follow_redirect e)) not_found_check"

text \<open>Lines 391 to 398: the size of the output file, if it can be opened.\<close>

definition resume_offset :: "string \<Rightarrow> task \<Rightarrow> task" where
  "resume_offset output_file_path t =
     t\<lparr>downloaded_file_size :=
          (case files t output_file_path of None \<Rightarrow> 0 | Some bytes \<Rightarrow> length bytes)\<rparr>"

text \<open>Lines 400 to 403.\<close>

definition open_stream :: "env \<Rightarrow> task \<Rightarrow> task flow" where
  "open_stream e t =
     (let conn = init (net e (length (requests t)) (url t) ''GET'' (downloaded_file_size t))
                   (url t) ''GET'' (downloaded_file_size t);
          t = t\<lparr>requests := requests t @ [(url t, ''GET'', downloaded_file_size t)]\<rparr>
      in case ssl (https conn) of
           None \<Rightarrow> Return False t
         | Some strm \<Rightarrow> Next (t\<lparr>https_ssl := strm\<rparr>))"

text \<open>Lines 405 to 412, in the arithmetic of \<open>size_t\<close> (64 bits).\<close>

definition estimate_header_size :: "task \<Rightarrow> nat" where
  "estimate_header_size t =
     (let header_size = length (response t)
      in if 0 < downloaded_file_size t
         then (let content_range_length =
                     length (CRLF @ ''Content-Range: bytes '' @ to_string (downloaded_file_size t)
                             @ ''-'' @ to_string (file_size t) @ ''/'' @ to_string (file_size t)
                             @ CRLF);
                   digits_diff =
                     (length (to_string (file_size t)) + 2 ^ 64
                        - length (to_string (downloaded_file_size t))) mod 2 ^ 64
               in (header_size + 13 + content_range_length + 2 ^ 64 - digits_diff) mod 2 ^ 64)
         else header_size)"

text \<open>
  \<open>std::string(read_buffer.data())\<close>: the buffer up to its first zero byte. The
  constructor looks for that byte from the start of the buffer on; a buffer that
  holds none is read past its end.
\<close>

definition terminated :: "string \<Rightarrow> bool" where
  "terminated buf = (\<not> list_all (\<lambda>c. c \<noteq> CHR 0x00) buf)"


definition c_str :: "string \<Rightarrow> string" where
  "c_str buf = takeWhile (\<lambda>c. c \<noteq> CHR 0x00) buf"

text \<open>What \<open>SSL_read\<close> stored replaces the front of the buffer.\<close>

definition store :: "string \<Rightarrow> string \<Rightarrow> string" where
  "store buf data = data @ drop (length data) buf"

text \<open>
  Lines 414 to 433: \<open>bytes_read\<close> is a \<open>uint32_t\<close>. The vector is created filled with
  zero bytes; when \<open>SSL_read\<close> fills it with bytes that are not zero, line 419 reads
  past it.
\<close>

definition skip_header :: "task \<Rightarrow> task flow" where
  "skip_header t =
     (let t = t\<lparr>read_buffer := replicate (estimate_header_size t) (CHR 0x00)\<rparr>
      in case SSL_read (https_ssl t) (length (read_buffer t) mod 2 ^ 32) of
        (n, data, strm) \<Rightarrow>
          (let t = t\<lparr>https_ssl := strm, read_buffer := store (read_buffer t) data,
                       bytes_read := nat (n mod 2 ^ 32)\<rparr>
           in if \<not> terminated (read_buffer t) then Raise BufferOverread t
              else if contains (c_str (read_buffer t)) ''HTTP/1.1 404 Not Found''
              then Return False (log_add ERROR ''404 Not Found'' t)
              else if header_short (bytes_read t) (length (read_buffer t))
              then Return False (log_add ERROR ''Error reading header: {}/{}\<newline>{}'' t)
              else Next t))"

text \<open>
  Line 441: the output file is opened for appending, which creates it when it does
  not exist. The code does not test whether the opening succeeded; on a stream that
  is not open, or that has failed, a write does nothing. A write that does not fit
  stores what fits and fails the stream. Line 489 closes the stream.
\<close>

definition append_file :: "filesystem \<Rightarrow> string \<Rightarrow> string \<Rightarrow> filesystem" where
  "append_file fs file_path data =
     fs(file_path \<mapsto> (case fs file_path of None \<Rightarrow> [] | Some bytes \<Rightarrow> bytes) @ data)"

definition open_outfile :: "env \<Rightarrow> string \<Rightarrow> task \<Rightarrow> task" where
  "open_outfile e output_file_path t =
     (case room e output_file_path of
        None \<Rightarrow> t\<lparr>outfile := None\<rparr>
      | Some n \<Rightarrow> t\<lparr>outfile := Some n, files := append_file (files t) output_file_path []\<rparr>)"

definition write_outfile :: "string \<Rightarrow> string \<Rightarrow> task \<Rightarrow> task" where
  "write_outfile output_file_path data t =
     (case outfile t of
        None \<Rightarrow> t
      | Some n \<Rightarrow>
          t\<lparr>files := append_file (files t) output_file_path (take n data),
            outfile := (if length data \<le> n then Some (n - length data) else None)\<rparr>)"

definition close_outfile :: "task \<Rightarrow> task" where
  "close_outfile t = t\<lparr>outfile := None\<rparr>"

text \<open>\<open>if (progress_callback) progress_state = progress_callback(...)\<close>\<close>

definition invoke_callback :: "ProgressCallback \<Rightarrow> task \<Rightarrow> task" where
  "invoke_callback progress_callback t =
     (case progress_callback of
        None \<Rightarrow> t
      | Some cb \<Rightarrow> t\<lparr>progress_state := cb (calls t), calls := calls t + 1\<rparr>)"

text \<open>
  Lines 454 to 486, one pass through the body of the loop. A negative result of
  \<open>SSL_read\<close> becomes a \<open>bytes_read\<close> near \<open>2^32\<close>, and \<open>outfile.write\<close>, when the
  stream is good, then reads that many bytes from \<open>read_buffer\<close>, past its end. The
  counter \<open>downloaded_file_size\<close> is a \<open>uint64_t\<close> and advances whether or not the
  bytes were written.
\<close>

definition loop_body :: "string \<Rightarrow> ProgressCallback \<Rightarrow> task \<Rightarrow> fault \<times> task + task" where
  "loop_body output_file_path progress_callback t =
     (if \<not> pause (progress_state t) then
        (case SSL_read (https_ssl t) (length (read_buffer t) mod 2 ^ 32) of
           (n, data, strm) \<Rightarrow>
             (let t = t\<lparr>https_ssl := strm, read_buffer := store (read_buffer t) data,
                          bytes_read := nat (n mod 2 ^ 32)\<rparr>
              in if bytes_read t \<noteq> 0 then
                   (if outfile t \<noteq> None \<and> length (read_buffer t) < bytes_read t
                    then Inl (BufferOverread, t)
                    else Inr (invoke_callback progress_callback
                           ((write_outfile output_file_path
                               (take (bytes_read t) (read_buffer t)) t)
                            \<lparr>downloaded_file_size :=
                               (downloaded_file_size t + bytes_read t) mod 2 ^ 64\<rparr>)))
                 else Inr (invoke_callback progress_callback t)))
      else Inr (invoke_callback progress_callback t))"

text \<open>
  Line 453: \<open>while (progress_state.download && bytes_read)\<close>. The loop need not end
  (a callback may answer "pause" for ever); \<open>None\<close> is the run that does not return.
\<close>

partial_function (option) body_loop :: "string \<Rightarrow> ProgressCallback \<Rightarrow> task \<Rightarrow> (fault \<times> task + task) option" where
  "body_loop output_file_path progress_callback t =
     (if download (progress_state t) \<and> bytes_read t \<noteq> 0
      then (case loop_body output_file_path progress_callback t of
              Inl x \<Rightarrow> Some (Inl x)
            | Inr t' \<Rightarrow> body_loop output_file_path progress_callback t')
      else Some (Inr t))"

declare body_loop.simps [code]

text \<open>
  Lines 377 to 433: the metadata, the resume offset, the opening of the body stream
  and the reading of its header.
\<close>

definition prepare :: "env \<Rightarrow> string \<Rightarrow> task \<Rightarrow> task flow" where
  "prepare e output_file_path t =
     then_flow
       (then_flow (read_metadata e t) (\<lambda>t. open_stream e (resume_offset output_file_path t)))
       skip_header"

text \<open>
  Lines 440 to 498: the output file is opened, the loop runs, the file is closed,
  and the invocation \<open>progress_callback(0, 0)\<close> follows.
\<close>

definition stream_body :: "env \<Rightarrow> string \<Rightarrow> ProgressCallback \<Rightarrow> task \<Rightarrow> task flow option" where
  "stream_body e output_file_path progress_callback t =
     (case body_loop output_file_path progress_callback (open_outfile e output_file_path t) of
        None \<Rightarrow> None
      | Some (Inl (f, t)) \<Rightarrow> Some (Raise f t)
      | Some (Inr t) \<Rightarrow> Some (Next (invoke_callback progress_callback (close_outfile t))))"

text \<open>Lines 343 to 433: everything before the output file is opened. No loop is involved.\<close>

definition before_stream :: "env \<Rightarrow> filesystem \<Rightarrow> string \<Rightarrow> string \<Rightarrow> task flow" where
  "before_stream e fs u output_file_path = then_flow (probed e fs u) (prepare e output_file_path)"

text \<open>Lines 343 to 498: everything before the two final checks.\<close>

definition transfer :: "env \<Rightarrow> filesystem \<Rightarrow> string \<Rightarrow> string \<Rightarrow> ProgressCallback \<Rightarrow> task flow option" where
  "transfer e fs u output_file_path progress_callback =
     (case before_stream e fs u output_file_path of
        Raise f t \<Rightarrow> Some (Raise f t)
      | Return b t \<Rightarrow> Some (Return b t)
      | Next t \<Rightarrow> stream_body e output_file_path progress_callback t)"

text \<open>Lines 500 to 517: the size check and the integrity check.\<close>

definition final_checks :: "env \<Rightarrow> string \<Rightarrow> task \<Rightarrow> bool \<times> task" where
  "final_checks e output_file_path t =
     (if size_short (downloaded_file_size t) (file_size t) then
        (if download (progress_state t)
         then (False, log_add ERROR
                 ''Downloaded size is not equal to file size, downloaded size: {}/{}'' t)
         else (False, log_add WARN ''Canceled by user, dowloaded size: {}/{}'' t))
      else (let downloaded_file_md5 = calculate_md5_file (md5 e) (files t) output_file_path
            in if downloaded_file_md5 \<noteq> content_md5 t
               then (False,
                     (log_add ERROR
                        ''Downloaded file is corrupted, MD5 Expected: {}; Downloaded: {}'' t)
                       \<lparr>files := (files t)(output_file_path := None)\<rparr>)
               else (True, t)))"

text \<open>
  \<open>download_file(url, output_file_path, progress_callback)\<close>: \<open>None\<close> when the loop
  does not end, \<open>Inl\<close> when the call leaves by a fault (with the state at that
  moment), else the returned value and the final state.
\<close>

definition download_file :: "env \<Rightarrow> filesystem \<Rightarrow> string \<Rightarrow> string \<Rightarrow> ProgressCallback \<Rightarrow> (fault \<times> task + bool \<times> task) option" where
  "download_file e fs u output_file_path progress_callback =
     (case transfer e fs u output_file_path progress_callback of
        None \<Rightarrow> None
      | Some (Raise f t) \<Rightarrow> Some (Inl (f, t))
      | Some (Return b t) \<Rightarrow> Some (Inr (b, t))
      | Some (Next t) \<Rightarrow> Some (Inr (final_checks e output_file_path t)))"

subsection \<open>Example worlds\<close>

text \<open>A system on which every step of \<open>init\<close> succeeds, with a given peer.\<close>

definition ok_sys :: "string list \<Rightarrow> syscalls" where
  "ok_sys recs =
     \<lparr>ssl_ctx_new_ok = True, socket_ret = 3, getaddrinfo_ret = 0, getaddrinfo_result = True,
      connect_ret = 0, getsockopt_ret = 0, so_error = 0, ssl_connect_ret = 1,
      ssl_write_ret = 1, incoming = recs, read_failure = 0\<rparr>"

subsection \<open>The standard base64 encoding\<close>

text \<open>
  The encoding in which a server writes a digest into the checksum header (RFC 4648,
  with padding). It is not part of the program, which only decodes; it follows the
  words of the specification ("the standard base64 encoding") and is what the
  decoder is compared with. Three bytes give four 6-bit values, each written as the
  character of the alphabet at that index; a last group of one or two bytes is
  filled up with zero bits and \<open>=\<close> signs.
\<close>

definition sextet1 :: "byte \<Rightarrow> byte" where
  "sextet1 a = drop_bit 2 a"

definition sextet2 :: "byte \<Rightarrow> byte \<Rightarrow> byte" where
  "sextet2 a b = push_bit 4 (a AND 3) OR drop_bit 4 b"

definition sextet3 :: "byte \<Rightarrow> byte \<Rightarrow> byte" where
  "sextet3 b c = push_bit 2 (b AND 15) OR drop_bit 6 c"

definition sextet4 :: "byte \<Rightarrow> byte" where
  "sextet4 c = c AND 63"

definition b64_char :: "byte \<Rightarrow> char" where
  "b64_char v = base64_chars ! unat v"

fun base64_encode :: "byte list \<Rightarrow> string" where
  "base64_encode (a # b # c # rest) =
     [b64_char (sextet1 a), b64_char (sextet2 a b), b64_char (sextet3 b c),
      b64_char (sextet4 c)] @ base64_encode rest"
| "base64_encode [a, b] =
     [b64_char (sextet1 a), b64_char (sextet2 a b), b64_char (sextet3 b 0), CHR ''='']"
| "base64_encode [a] =
     [b64_char (sextet1 a), b64_char (sextet2 a 0), CHR ''='', CHR ''='']"
| "base64_encode [] = []"

text \<open>The accumulator of the decoder after one more 6-bit value.\<close>

definition feed :: "32 word \<Rightarrow> byte \<Rightarrow> 32 word" where
  "feed A v = push_bit 6 A OR ucast v"

text \<open>A response header with a given value of the checksum header.\<close>

definition ok_header :: "string \<Rightarrow> string" where
  "ok_header md5_value =
     ''HTTP/1.1 200 OK'' @ CRLF @ ''Content-Length: 3'' @ CRLF
     @ ''Content-MD5: '' @ md5_value @ CRLF @ CRLF"

text \<open>The same header with the name of the server in it.\<close>

definition served_header :: "string \<Rightarrow> string \<Rightarrow> string" where
  "served_header server md5_value =
     ''HTTP/1.1 200 OK'' @ CRLF @ ''Server: '' @ server @ CRLF @ ''Content-Length: 3'' @ CRLF
     @ ''Content-MD5: '' @ md5_value @ CRLF @ CRLF"

text \<open>A header without \<open>Content-Length\<close>, and one with a given content length.\<close>

definition no_length_header :: "string \<Rightarrow> string" where
  "no_length_header md5_value =
     ''HTTP/1.1 200 OK'' @ CRLF @ ''Content-MD5: '' @ md5_value @ CRLF @ CRLF"

definition sized_header :: "string \<Rightarrow> string \<Rightarrow> string" where
  "sized_header content_length md5_value =
     ''HTTP/1.1 200 OK'' @ CRLF @ ''Content-Length: '' @ content_length @ CRLF
     @ ''Content-MD5: '' @ md5_value @ CRLF @ CRLF"

text \<open>
  A server that answers every \<open>HEAD\<close> request with one record and every \<open>GET\<close>
  request with given records, the first of which is its header block.
\<close>

definition ex_net :: "string \<Rightarrow> string list \<Rightarrow> nat \<Rightarrow> string \<Rightarrow> string \<Rightarrow> nat \<Rightarrow> syscalls" where
  "ex_net head_response get_records n u method offset =
     ok_sys (if method = ''HEAD'' then [head_response] else get_records)"

text \<open>The same server behind a first answer of its own (a redirection).\<close>

definition ex_redirect_net :: "string \<Rightarrow> string \<Rightarrow> string list \<Rightarrow> nat \<Rightarrow> string \<Rightarrow> string \<Rightarrow> nat \<Rightarrow> syscalls" where
  "ex_redirect_net first head_response get_records n u method offset =
     (if n = 0 then ok_sys [first] else ex_net head_response get_records n u method offset)"

text \<open>A server whose connection breaks after the header block: \<open>SSL_read\<close> then returns \<open>-1\<close>.\<close>

definition ex_broken_net :: "string \<Rightarrow> nat \<Rightarrow> string \<Rightarrow> string \<Rightarrow> nat \<Rightarrow> syscalls" where
  "ex_broken_net head_response n u method offset = (ok_sys [head_response])\<lparr>read_failure := 1\<rparr>"

text \<open>
  A world in which every file has the MD5 digest \<open>digest\<close> and every output file
  can be opened, with room for 1000 bytes.
\<close>

definition ex_env :: "(nat \<Rightarrow> string \<Rightarrow> string \<Rightarrow> nat \<Rightarrow> syscalls) \<Rightarrow> 128 word \<Rightarrow> env" where
  "ex_env server digest =
     \<lparr>net = server, md5 = (\<lambda>bytes. digest), uninit = 0,
      initial_state = \<lparr>download = True, pause = False\<rparr>, room = (\<lambda>file_path. Some 1000)\<rparr>"

definition zero_md5 :: string where
  "zero_md5 = ''AAAAAAAAAAAAAAAAAAAAAA==''"

text \<open>
  The answer to \<open>HEAD\<close> (100 bytes) and the header block of the answer to \<open>GET\<close>
  (99 bytes) of a server whose two answers differ by one byte, so that the header
  read of line 418 leaves the last byte of the buffer zero.
\<close>

definition head_100 :: string where
  "head_100 = served_header ''cdn-a.example'' zero_md5"

definition get_99 :: string where
  "get_99 = served_header ''cdn.example:'' zero_md5"

subsection \<open>Notions used in the properties\<close>

text \<open>How a call ended, without the state, and the state it ended in.\<close>

definition outcome :: "(fault \<times> task + bool \<times> task) option \<Rightarrow> (fault + bool) option" where
  "outcome r = map_option (map_sum fst fst) r"

definition end_state :: "fault \<times> task + bool \<times> task \<Rightarrow> task" where
  "end_state r = (case r of Inl (f, t) \<Rightarrow> t | Inr (b, t) \<Rightarrow> t)"

text \<open>The state in which a step ended, however it ended.\<close>

definition flow_state :: "task flow \<Rightarrow> task" where
  "flow_state x = (case x of Raise f t \<Rightarrow> t | Return b t \<Rightarrow> t | Next t \<Rightarrow> t)"

text \<open>
  The states at the head of the loop (line 453) of a run that enters it in \<open>t0\<close>,
  whether or not the loop ends.
\<close>

inductive loop_reaches :: "string \<Rightarrow> ProgressCallback \<Rightarrow> task \<Rightarrow> task \<Rightarrow> bool"
  for output_file_path progress_callback t0 where
  enter: "loop_reaches output_file_path progress_callback t0 t0"
| pass: "loop_reaches output_file_path progress_callback t0 t
      \<Longrightarrow> download (progress_state t) \<and> bytes_read t \<noteq> 0
      \<Longrightarrow> loop_body output_file_path progress_callback t = Inr t'
      \<Longrightarrow> loop_reaches output_file_path progress_callback t0 t'"

code_pred loop_reaches .

text \<open>After the probe: the requests are one or two probes.\<close>

definition probes :: "string \<Rightarrow> task \<Rightarrow> bool" where
  "probes u t \<longleftrightarrow>
     requests t = [(u, ''HEAD'', 0)] \<and> url t = u
     \<or> requests t = [(u, ''HEAD'', 0), (url t, ''HEAD'', 0)]"

text \<open>The fields that the steps between the probe and the loop leave alone.\<close>

definition same_world :: "task \<Rightarrow> task \<Rightarrow> bool" where
  "same_world t t' \<longleftrightarrow>
     url t' = url t \<and> response t' = response t \<and> files t' = files t \<and> log t' = log t
     \<and> calls t' = calls t \<and> progress_state t' = progress_state t"

text \<open>The fields that the loop leaves alone.\<close>

definition same_plan :: "task \<Rightarrow> task \<Rightarrow> bool" where
  "same_plan t t' \<longleftrightarrow>
     url t' = url t \<and> response t' = response t \<and> content_md5 t' = content_md5 t
     \<and> file_size t' = file_size t \<and> requests t' = requests t \<and> log t' = log t"

text \<open>A redirection, with a line that may hold the new location.\<close>

definition found_302 :: "string \<Rightarrow> string" where
  "found_302 location_line = ''HTTP/1.1 302 Found'' @ CRLF @ location_line @ CRLF @ CRLF"

section \<open>Properties\<close>

subsection \<open>Searching\<close>

lemma find_str_skip:
  "c \<notin> set a \<Longrightarrow> find_str (a @ b) (c # p) = map_option (\<lambda>k. k + length a) (find_str b (c # p))"
  by (induction a) (auto simp: option.map_comp comp_def option.map_ident)

lemma find_str_absent: "c \<notin> set a \<Longrightarrow> find_str a (c # p) = None"
  using find_str_skip [of c a "[]" p] by simp

lemma find_str_here: "prefix pat s \<Longrightarrow> find_str s pat = Some 0"
  by (cases s) auto

subsection \<open>The request\<close>

text \<open>
  Claim C8. For every method, URI, host and resume offset the request is the line
  \<open>METHOD uri HTTP/1.1\<close>, then the \<open>Host:\<close> header, then the pair
  \<open>Accept-Ranges: bytes\<close> and \<open>Range: bytes=<offset>-\<close> exactly when the offset is
  greater than 0, and it ends with \<open>Connection: close\<close> and the empty line. (Between
  the two, the code always sends the fixed header \<open>User-Agent: OpenSSL/1.1.1\<close>.)
\<close>

theorem build_request_shape:
  "build_request method uri host n =
     (method @ '' '' @ uri @ '' HTTP/1.1'' @ CRLF) @ (''Host: '' @ host @ CRLF)
     @ (if 0 < n
        then (''Accept-Ranges: bytes'' @ CRLF) @ (''Range: bytes='' @ to_string n @ ''-'' @ CRLF)
        else [])
     @ (''User-Agent: OpenSSL/1.1.1'' @ CRLF)
     @ (''Connection: close'' @ CRLF @ CRLF)
   \<and> (0 < n \<longleftrightarrow>
        prefix ((method @ '' '' @ uri @ '' HTTP/1.1'' @ CRLF) @ (''Host: '' @ host @ CRLF)
                @ (''Accept-Ranges: bytes'' @ CRLF) @ (''Range: bytes='' @ to_string n @ ''-'' @ CRLF))
          (build_request method uri host n))
   \<and> suffix (''Connection: close'' @ CRLF @ CRLF) (build_request method uri host n)"
  by (simp add: build_request_def suffix_def)

subsection \<open>The URL\<close>

lemma parse_url_with_path:
  assumes "CHR '':'' \<notin> set scheme" and "CHR ''/'' \<notin> set host"
  shows "parse_url (scheme @ ''://'' @ host @ ''/'' @ path) = (host, ''/'' @ path)"
proof -
  define v where "v = scheme @ ''://'' @ host @ ''/'' @ path"
  have 1: "find_str v ''://'' = Some (length scheme)"
    using find_str_skip [OF assms(1), of "''://'' @ host @ ''/'' @ path" "''//''"]
    by (simp add: v_def)
  have "find_str (host @ ''/'' @ path) ''/'' = Some (length host)"
    using find_str_skip [OF assms(2), of "''/'' @ path" "[]"] by simp
  then have 2: "find_from v ''/'' (length scheme + 3) = Some (length host + (length scheme + 3))"
    by (simp add: find_from_def v_def)
  have 3: "substr v (length scheme + 3) (length host) = host"
    and 4: "substr_from v (length host + (length scheme + 3)) = ''/'' @ path"
    by (simp_all add: substr_def substr_from_def v_def numeral_3_eq_3)
  have "parse_url v = (host, ''/'' @ path)"
    by (simp add: parse_url_def 1 2 3 4)
  then show ?thesis
    by (simp only: v_def)
qed

lemma parse_url_without_path:
  assumes "CHR '':'' \<notin> set scheme" and "CHR ''/'' \<notin> set host"
  shows "parse_url (scheme @ ''://'' @ host) = (host, ''/'')"
proof -
  define v where "v = scheme @ ''://'' @ host"
  have 1: "find_str v ''://'' = Some (length scheme)"
    using find_str_skip [OF assms(1), of "''://'' @ host" "''//''"]
    by (simp add: v_def)
  have "find_str host ''/'' = None"
    using find_str_absent [OF assms(2)] by simp
  then have 2: "find_from v ''/'' (length scheme + 3) = None"
    by (simp add: find_from_def v_def)
  have 3: "substr_from v (length scheme + 3) = host"
    by (simp add: substr_from_def v_def numeral_3_eq_3)
  have "parse_url v = (host, ''/'')"
    by (simp add: parse_url_def 1 2 3)
  then show ?thesis
    by (simp only: v_def)
qed

text \<open>
  Claim C9, as amended. A URL \<open>scheme://host/path\<close> is split into the host and the
  path from its first slash on; a URL \<open>scheme://host\<close> without a slash after the host
  gets the path \<open>/\<close>; a URL without \<open>://\<close> gets the empty host and the empty path
  (not \<open>/\<close>). The parser has no failing branch.
\<close>

theorem parse_url_cases:
  "(CHR '':'' \<notin> set scheme \<and> CHR ''/'' \<notin> set host \<longrightarrow>
      parse_url (scheme @ ''://'' @ host @ ''/'' @ path) = (host, ''/'' @ path))
   \<and> (CHR '':'' \<notin> set scheme \<and> CHR ''/'' \<notin> set host \<longrightarrow>
      parse_url (scheme @ ''://'' @ host) = (host, ''/''))
   \<and> (\<not> contains u ''://'' \<longrightarrow> parse_url u = ([], []))"
proof (intro conjI impI)
  assume "CHR '':'' \<notin> set scheme \<and> CHR ''/'' \<notin> set host"
  then show "parse_url (scheme @ ''://'' @ host @ ''/'' @ path) = (host, ''/'' @ path)"
    by (intro parse_url_with_path) simp_all
next
  assume "CHR '':'' \<notin> set scheme \<and> CHR ''/'' \<notin> set host"
  then show "parse_url (scheme @ ''://'' @ host) = (host, ''/'')"
    by (intro parse_url_without_path) simp_all
next
  assume "\<not> contains u ''://''"
  then show "parse_url u = ([], [])"
    by (simp add: parse_url_def contains_def)
qed

theorem parse_url_cases_witness:
  "(CHR '':'' \<notin> set ''https'' \<and> CHR ''/'' \<notin> set ''vita3k.org'')
   \<and> parse_url (''https'' @ ''://'' @ ''vita3k.org'' @ ''/'' @ ''fw/a.pup'') = (''vita3k.org'', ''/fw/a.pup'')
   \<and> parse_url (''https'' @ ''://'' @ ''vita3k.org'') = (''vita3k.org'', ''/'')
   \<and> \<not> contains ''vita3k.org/fw'' ''://''
   \<and> parse_url ''vita3k.org/fw'' = ([], [])"
proof -
  have h1: "CHR '':'' \<notin> set ''https'' \<and> CHR ''/'' \<notin> set ''vita3k.org''"
    by simp
  have h2: "\<not> contains ''vita3k.org/fw'' ''://''"
    by (simp add: contains_def)
  show ?thesis
    using h1 h2 parse_url_cases [of "''https''" "''vita3k.org''" "''fw/a.pup''" "''vita3k.org/fw''"]
    by simp
qed

text \<open>
  Claim C9 as stated fails: a URL without \<open>://\<close> does not match the shape, and its
  path is left empty instead of defaulting to \<open>/\<close>.
\<close>

theorem parse_url_no_scheme_counterexample:
  "\<not> contains ''vita3k.org/fw'' ''://'' \<and> snd (parse_url ''vita3k.org/fw'') \<noteq> ''/''"
  by (simp add: contains_def parse_url_def)

subsection \<open>Opening a session\<close>

text \<open>
  Claim C6. Every call of \<open>init\<close> either returns an established session (every step
  from the context to the sending of the request succeeded; the socket and the SSL
  handle are the only resources still held) or returns the null session with
  every resource it had acquired released and nothing sent.
\<close>

theorem init_all_or_nothing:
  "(ssl (https (init sys u method n)) \<noteq> None \<longrightarrow>
      established sys
      \<and> https (init sys u method n)
          = \<lparr>ssl = Some (incoming sys, read_failure sys), sockfd = socket_ret sys\<rparr>
      \<and> live (init sys u method n) = {Socket, SslHandle}
      \<and> sent (init sys u method n)
          = Some (build_request method (snd (parse_url u)) (fst (parse_url u)) n))
   \<and> (ssl (https (init sys u method n)) = None \<longrightarrow>
      \<not> established sys
      \<and> https (init sys u method n) = no_https
      \<and> live (init sys u method n) = {}
      \<and> sent (init sys u method n) = None)"
  by (auto simp: init_def established_def no_https_def Let_def split: prod.splits)


theorem init_all_or_nothing_witness:
  "ssl (https (init (ok_sys [''x'']) ''https://h/f'' ''GET'' 0)) \<noteq> None
   \<and> live (init (ok_sys [''x'']) ''https://h/f'' ''GET'' 0) = {Socket, SslHandle}
   \<and> ssl (https (init ((ok_sys [''x''])\<lparr>ssl_connect_ret := 0\<rparr>) ''https://h/f'' ''GET'' 0)) = None
   \<and> live (init ((ok_sys [''x''])\<lparr>ssl_connect_ret := 0\<rparr>) ''https://h/f'' ''GET'' 0) = {}"
proof -
  have h1: "ssl (https (init (ok_sys [''x'']) ''https://h/f'' ''GET'' 0)) \<noteq> None"
    by (simp add: init_def ok_sys_def Let_def split: prod.splits)
  have h2: "ssl (https (init ((ok_sys [''x''])\<lparr>ssl_connect_ret := 0\<rparr>) ''https://h/f'' ''GET'' 0)) = None"
    by (simp add: init_def ok_sys_def no_https_def Let_def split: prod.splits)
  show ?thesis
    using h1 h2
      init_all_or_nothing [of "ok_sys [''x'']" "''https://h/f''" "''GET''" 0]
      init_all_or_nothing [of "(ok_sys [''x''])\<lparr>ssl_connect_ret := 0\<rparr>" "''https://h/f''" "''GET''" 0]
    by simp
qed

subsection \<open>Decoding what the standard encoding wrote\<close>

lemma byte_bit_high [simp]: "8 \<le> n \<Longrightarrow> \<not> bit (b :: byte) n"
  by (auto dest: bit_imp_le_length)

lemma bit_below8: "n < LENGTH(8) \<Longrightarrow> n \<in> {0, 1, 2, 3, 4, 5, 6, 7}"
  by auto

lemma sextet_byte0: "ucast (drop_bit 4 (feed (feed A (sextet1 a)) (sextet2 a b)) AND 0xFF) = a"
proof (rule bit_word_eqI)
  fix n :: nat
  assume "n < LENGTH(8)"
  then have "n \<in> {0, 1, 2, 3, 4, 5, 6, 7}"
    by (rule bit_below8)
  then show "bit (ucast (drop_bit 4 (feed (feed A (sextet1 a)) (sextet2 a b)) AND 0xFF) :: byte) n
      = bit a n"
    by (elim insertE emptyE; simp add: feed_def sextet1_def sextet2_def bit_simps)
qed

lemma sextet_byte1: "ucast (drop_bit 2 (feed (feed A (sextet2 a b)) (sextet3 b c)) AND 0xFF) = b"
proof (rule bit_word_eqI)
  fix n :: nat
  assume "n < LENGTH(8)"
  then have "n \<in> {0, 1, 2, 3, 4, 5, 6, 7}"
    by (rule bit_below8)
  then show "bit (ucast (drop_bit 2 (feed (feed A (sextet2 a b)) (sextet3 b c)) AND 0xFF) :: byte) n
      = bit b n"
    by (elim insertE emptyE; simp add: feed_def sextet2_def sextet3_def bit_simps)
qed

lemma sextet_byte2: "ucast (feed (feed A (sextet3 b c)) (sextet4 c) AND 0xFF) = c"
proof (rule bit_word_eqI)
  fix n :: nat
  assume "n < LENGTH(8)"
  then have "n \<in> {0, 1, 2, 3, 4, 5, 6, 7}"
    by (rule bit_below8)
  then show "bit (ucast (feed (feed A (sextet3 b c)) (sextet4 c) AND 0xFF) :: byte) n = bit c n"
    by (elim insertE emptyE; simp add: feed_def sextet3_def sextet4_def bit_simps)
qed

lemma sextet_bound:
  fixes x :: byte
  assumes "\<And>n. n \<in> {6, 7} \<Longrightarrow> \<not> bit x n"
  shows "unat x < 64"
proof -
  have "x AND 63 = x"
  proof (rule bit_word_eqI)
    fix n :: nat
    assume "n < LENGTH(8)"
    then have "n \<in> {0, 1, 2, 3, 4, 5, 6, 7}"
      by (rule bit_below8)
    then show "bit (x AND 63) n = bit x n"
      using assms by (elim insertE emptyE; simp add: bit_simps)
  qed
  moreover have "unat (x AND 63) \<le> unat (63 :: byte)"
    by (rule word_and_le1 [THEN word_le_nat_alt [THEN iffD1]])
  ultimately show ?thesis
    by simp
qed

lemma sextets_small:
  "unat (sextet1 a) < 64" "unat (sextet2 a b) < 64" "unat (sextet3 b c) < 64"
  "unat (sextet4 c) < 64"
  by (rule sextet_bound, auto simp: sextet1_def sextet2_def sextet3_def sextet4_def bit_simps)+

lemma find_char_nth:
  "distinct xs \<Longrightarrow> v < length xs \<Longrightarrow> find_str xs [xs ! v] = Some v"
proof (induction xs arbitrary: v)
  case Nil
  then show ?case by simp
next
  case (Cons x xs)
  then show ?case
    by (cases v) auto
qed

lemma base64_chars_distinct: "distinct base64_chars"
  and base64_chars_length: "length base64_chars = 64"
  by (simp_all add: base64_chars_def)

lemma b64_char_found: "unat v < 64 \<Longrightarrow> find_str base64_chars [b64_char v] = Some (unat v)"
  by (simp add: b64_char_def find_char_nth base64_chars_distinct base64_chars_length)

lemma base64_chars_plain:
  "c \<in> set base64_chars \<Longrightarrow> \<not> isspace c \<and> c \<noteq> CHR ''='' \<and> md5_class c"
  by (auto simp: base64_chars_def isspace_def md5_class_def)

lemma b64_char_plain:
  assumes "unat v < 64"
  shows "\<not> isspace (b64_char v)" "b64_char v \<noteq> CHR ''=''" "md5_class (b64_char v)"
proof -
  have "b64_char v \<in> set base64_chars"
    using assms by (simp add: b64_char_def base64_chars_length)
  then show "\<not> isspace (b64_char v)" "b64_char v \<noteq> CHR ''=''" "md5_class (b64_char v)"
    using base64_chars_plain by blast+
qed

lemma decode_loop_b64_char:
  assumes "unat v < 64"
  shows "decode_loop (b64_char v # cs) st =
     (if 8 \<le> accum_bits st + 6
      then (if md5_i st < 16
            then decode_loop cs
                   \<lparr>md5_bytes = (md5_bytes st)
                       [md5_i st := ucast (drop_bit (accum_bits st + 6 - 8) (feed (accum st) v) AND 0xFF)],
                    md5_i = md5_i st + 1, accum = feed (accum st) v,
                    accum_bits = accum_bits st + 6 - 8\<rparr>
            else PastEnd)
      else decode_loop cs (st\<lparr>accum := feed (accum st) v, accum_bits := accum_bits st + 6\<rparr>))"
  using assms by (simp add: b64_char_found b64_char_plain MD5_DIGEST_LENGTH_def Let_def feed_def)

lemma decode_group3:
  assumes "accum_bits st = 0" "md5_i st + 3 \<le> 16"
  shows "decode_loop (b64_char (sextet1 a) # b64_char (sextet2 a b) # b64_char (sextet3 b c)
                       # b64_char (sextet4 c) # cs) st =
     decode_loop cs \<lparr>md5_bytes = (md5_bytes st)[md5_i st := a, md5_i st + 1 := b, md5_i st + 2 := c],
                     md5_i = md5_i st + 3,
                     accum = feed (feed (feed (feed (accum st) (sextet1 a)) (sextet2 a b)) (sextet3 b c)) (sextet4 c),
                     accum_bits = 0\<rparr>"
  using assms
  by (simp add: decode_loop_b64_char sextets_small sextet_byte0 sextet_byte1 sextet_byte2
      numeral_3_eq_3 del: decode_loop.simps)


lemma decode_group1:
  assumes "accum_bits st = 0" "md5_i st + 1 \<le> 16"
  shows "decode_loop [b64_char (sextet1 a), b64_char (sextet2 a 0), CHR ''='', CHR ''=''] st =
     Finished \<lparr>md5_bytes = (md5_bytes st)[md5_i st := a], md5_i = md5_i st + 1,
               accum = feed (feed (accum st) (sextet1 a)) (sextet2 a 0), accum_bits = 4\<rparr>"
proof -
  have "decode_loop [b64_char (sextet1 a), b64_char (sextet2 a 0), CHR ''='', CHR ''=''] st =
     decode_loop [CHR ''='', CHR ''='']
       \<lparr>md5_bytes = (md5_bytes st)[md5_i st := a], md5_i = md5_i st + 1,
        accum = feed (feed (accum st) (sextet1 a)) (sextet2 a 0), accum_bits = 4\<rparr>"
    using assms
    by (simp add: decode_loop_b64_char sextets_small sextet_byte0 del: decode_loop.simps)
  then show ?thesis
    by simp
qed

lemma decode_group2:
  assumes "accum_bits st = 0" "md5_i st + 2 \<le> 16"
  shows "decode_loop [b64_char (sextet1 a), b64_char (sextet2 a b), b64_char (sextet3 b 0), CHR ''=''] st =
     Finished \<lparr>md5_bytes = (md5_bytes st)[md5_i st := a, md5_i st + 1 := b], md5_i = md5_i st + 2,
               accum = feed (feed (feed (accum st) (sextet1 a)) (sextet2 a b)) (sextet3 b 0),
               accum_bits = 2\<rparr>"
proof -
  have "decode_loop [b64_char (sextet1 a), b64_char (sextet2 a b), b64_char (sextet3 b 0), CHR ''=''] st =
     decode_loop [CHR ''='']
       \<lparr>md5_bytes = (md5_bytes st)[md5_i st := a, md5_i st + 1 := b], md5_i = md5_i st + 2,
        accum = feed (feed (feed (accum st) (sextet1 a)) (sextet2 a b)) (sextet3 b 0),
        accum_bits = 2\<rparr>"
    using assms
    by (simp add: decode_loop_b64_char sextets_small sextet_byte0 sextet_byte1
        del: decode_loop.simps)
  then show ?thesis
    by simp
qed

text \<open>
  The decoder, started between two groups, writes the encoded bytes into the array
  from its current index on and leaves the other entries alone.
\<close>

lemma decode_encode:
  assumes "accum_bits st = 0" and "md5_i st + length bs \<le> 16"
  shows "\<exists>st'. decode_loop (base64_encode bs) st = Finished st'
      \<and> length (md5_bytes st') = length (md5_bytes st)
      \<and> (\<forall>k < length (md5_bytes st). md5_bytes st' ! k =
            (if md5_i st \<le> k \<and> k < md5_i st + length bs then bs ! (k - md5_i st)
             else md5_bytes st ! k))"
  using assms
proof (induction bs arbitrary: st rule: base64_encode.induct)
  case (1 a b c rest)
  let ?st1 = "\<lparr>md5_bytes = (md5_bytes st)[md5_i st := a, md5_i st + 1 := b, md5_i st + 2 := c],
                md5_i = md5_i st + 3,
                accum = feed (feed (feed (feed (accum st) (sextet1 a)) (sextet2 a b)) (sextet3 b c)) (sextet4 c),
                accum_bits = 0\<rparr>"
  have step: "decode_loop (base64_encode (a # b # c # rest)) st = decode_loop (base64_encode rest) ?st1"
    using 1(2,3) decode_group3 [of st a b c "base64_encode rest"] by simp
  have "accum_bits ?st1 = 0" and "md5_i ?st1 + length rest \<le> 16"
    using 1(3) by simp_all
  from 1(1) [OF this] obtain st' where st':
    "decode_loop (base64_encode rest) ?st1 = Finished st'"
    "length (md5_bytes st') = length (md5_bytes ?st1)"
    "\<forall>k < length (md5_bytes ?st1). md5_bytes st' ! k =
        (if md5_i ?st1 \<le> k \<and> k < md5_i ?st1 + length rest then rest ! (k - md5_i ?st1)
         else md5_bytes ?st1 ! k)"
    by blast
  have "\<forall>k < length (md5_bytes st). md5_bytes st' ! k =
      (if md5_i st \<le> k \<and> k < md5_i st + length (a # b # c # rest)
       then (a # b # c # rest) ! (k - md5_i st) else md5_bytes st ! k)"
  proof (intro allI impI)
    fix k
    assume k: "k < length (md5_bytes st)"
    then have "md5_bytes st' ! k =
        (if md5_i st + 3 \<le> k \<and> k < md5_i st + 3 + length rest then rest ! (k - (md5_i st + 3))
         else ((md5_bytes st)[md5_i st := a, md5_i st + 1 := b, md5_i st + 2 := c]) ! k)"
      using st'(3) by simp
    then show "md5_bytes st' ! k =
      (if md5_i st \<le> k \<and> k < md5_i st + length (a # b # c # rest)
       then (a # b # c # rest) ! (k - md5_i st) else md5_bytes st ! k)"
      using k by (auto simp: nth_list_update nth_Cons' numeral_3_eq_3)
  qed
  with step st'(1,2) show ?case
    by simp
next
  case (2 a b)
  then show ?case
    using decode_group2 [of st a b] by (auto simp: nth_list_update nth_Cons')
next
  case (3 a)
  then show ?case
    using decode_group1 [of st a] by (auto simp: nth_list_update)
next
  case 4
  then show ?case
    by auto
qed


lemma md5_class_pad: "md5_class (CHR ''='')"
  by (simp add: md5_class_def)

lemma base64_encode_class: "list_all md5_class (base64_encode bs)"
  by (induction bs rule: base64_encode.induct)
    (simp_all add: b64_char_plain sextets_small md5_class_pad)

lemma base64_encode_nonempty: "bs \<noteq> [] \<Longrightarrow> base64_encode bs \<noteq> []"
  by (cases bs rule: base64_encode.cases) simp_all

lemma prefix_within:
  assumes "length lit \<le> length x"
  shows "prefix lit (x @ rest) = prefix lit x"
proof
  assume "prefix lit (x @ rest)"
  then obtain zs where "x @ rest = lit @ zs"
    by (auto simp: prefix_def)
  then have "take (length lit) (x @ rest) = lit"
    by simp
  then have "take (length lit) x = lit"
    using assms by simp
  then show "prefix lit x"
    by (metis take_is_prefix)
next
  assume "prefix lit x"
  then show "prefix lit (x @ rest)"
    by (rule prefix_prefix)
qed

lemma regex_search_skip:
  assumes "find_str (pre @ lit) lit = Some (length pre)"
  shows "regex_search lit heads cls (pre @ lit @ rest) = regex_search lit heads cls (lit @ rest)"
  using assms
proof (induction pre)
  case Nil
  then show ?case by simp
next
  case (Cons p ps)
  from Cons.prems have no: "\<not> prefix lit (p # ps @ lit)"
    and rest: "find_str (ps @ lit) lit = Some (length ps)"
    by (auto split: if_splits)
  have "\<not> prefix lit ((p # ps @ lit) @ rest)"
    using no by (subst prefix_within) simp_all
  then have "match_here lit heads cls (p # ps @ lit @ rest) = None"
    by (simp add: match_here_def)
  then show ?case
    using Cons.IH [OF rest] by simp
qed

lemma regex_search_here:
  assumes "lit \<noteq> []" and "cap \<noteq> []" and "list_all cls cap"
    and "post = [] \<or> \<not> cls (hd post)"
  shows "regex_search lit [[]] cls (lit @ cap @ post) = Some cap"
proof -
  have "takeWhile cls post = []"
    using assms(4) by (cases post) auto
  then have "takeWhile cls (cap @ post) = cap"
    using assms(3) by (simp add: list_all_iff)
  then have "match_here lit [[]] cls (lit @ cap @ post) = Some cap"
    using assms(2) by (simp add: match_here_def)
  moreover obtain c cs where "lit @ cap @ post = c # cs"
    using assms(1) by (cases lit) auto
  ultimately show ?thesis
    by simp
qed

lemma search_content_md5_capture:
  assumes "find_str (pre @ ''Content-MD5: '') ''Content-MD5: '' = Some (length pre)"
    and "cap \<noteq> []" and "list_all md5_class cap" and "post = [] \<or> \<not> md5_class (hd post)"
  shows "search_content_md5 (pre @ ''Content-MD5: '' @ cap @ post) = Some cap"
  unfolding search_content_md5_def
  using regex_search_skip [OF assms(1)] regex_search_here [OF _ assms(2,3,4), of "''Content-MD5: ''"]
  by simp

lemma convert_md5_bytes_to_str_cong:
  "(\<And>k. k < 16 \<Longrightarrow> xs ! k = ys ! k) \<Longrightarrow> convert_md5_bytes_to_str xs = convert_md5_bytes_to_str ys"
  unfolding convert_md5_bytes_to_str_def MD5_DIGEST_LENGTH_def
  by (rule arg_cong [where f = concat], rule map_cong) auto

lemma length_array16: "length (array16 w) = 16"
  by (simp add: array16_def)

lemma hash_chunks_all: "hash_chunks bytes md5_context = md5_context @ bytes"
proof (induction bytes md5_context rule: hash_chunks.induct)
  case (1 unread md5_context)
  then show ?case
    by (subst hash_chunks.simps) (simp add: MD5_Update_def)
qed

lemma calculate_md5_file_whole:
  "fs p = Some bytes \<Longrightarrow> calculate_md5_file m fs p = convert_md5_bytes_to_str (array16 (m bytes))"
  by (simp add: calculate_md5_file_def MD5_Final_def hash_chunks_all)

lemma get_content_md5_of_encoding:
  assumes "length d = 16"
    and "find_str (pre @ ''Content-MD5: '') ''Content-MD5: '' = Some (length pre)"
    and "post = [] \<or> \<not> md5_class (hd post)"
  shows "get_content_md5 u (pre @ ''Content-MD5: '' @ base64_encode d @ post)
     = Inr (convert_md5_bytes_to_str d)"
proof -
  let ?st = "\<lparr>md5_bytes = array16 u, md5_i = 0, accum = 0, accum_bits = 0\<rparr>"
  have "d \<noteq> []"
    using assms(1) by auto
  then have cap: "search_content_md5 (pre @ ''Content-MD5: '' @ base64_encode d @ post)
      = Some (base64_encode d)"
    using assms(2,3) by (intro search_content_md5_capture base64_encode_class base64_encode_nonempty)
  obtain st' where st': "decode_loop (base64_encode d) ?st = Finished st'"
    "\<forall>k < length (md5_bytes ?st). md5_bytes st' ! k =
        (if md5_i ?st \<le> k \<and> k < md5_i ?st + length d then d ! (k - md5_i ?st)
         else md5_bytes ?st ! k)"
    using decode_encode [of ?st d] assms(1) by auto
  have "convert_md5_bytes_to_str (md5_bytes st') = convert_md5_bytes_to_str d"
    using st'(2) assms(1) by (intro convert_md5_bytes_to_str_cong) (simp add: length_array16)
  then show ?thesis
    using cap st'(1) by (simp add: get_content_md5_def)
qed

text \<open>
  Claim C10, as amended. For every 16-byte digest \<open>d\<close>: on a header block in which
  the first occurrence of \<open>Content-MD5: \<close> is followed by the standard base64
  encoding of \<open>d\<close>, and the encoding is followed by the end of the block or by a
  character outside the class of the pattern (such as the carriage return),
  \<open>get_content_md5\<close> returns the string that \<open>convert_md5_bytes_to_str\<close> makes of
  \<open>d\<close>; so it equals what \<open>calculate_md5_file\<close> returns for a file whose MD5 digest
  is \<open>d\<close>, and the final comparison finds them equal.
\<close>

theorem content_md5_roundtrip:
  assumes "length d = 16"
    and "find_str (pre @ ''Content-MD5: '') ''Content-MD5: '' = Some (length pre)"
    and "post = [] \<or> \<not> md5_class (hd post)"
  shows "get_content_md5 u (pre @ ''Content-MD5: '' @ base64_encode d @ post)
           = Inr (convert_md5_bytes_to_str d)
     \<and> (\<forall>m fs p bytes. fs p = Some bytes \<and> array16 (m bytes) = d \<longrightarrow>
           Inr (calculate_md5_file m fs p)
             = get_content_md5 u (pre @ ''Content-MD5: '' @ base64_encode d @ post))"
  using get_content_md5_of_encoding [OF assms] by (auto simp: calculate_md5_file_whole)


lemma base64_encode_zero: "base64_encode (replicate 16 0) = ''AAAAAAAAAAAAAAAAAAAAAA==''"
  by (simp add: numeral_eq_Suc sextet1_def sextet2_def sextet3_def sextet4_def b64_char_def base64_chars_def)

theorem content_md5_roundtrip_witness:
  "length (replicate 16 (0 :: byte)) = 16
   \<and> get_content_md5 5 (ok_header (base64_encode (replicate 16 0)))
       = Inr (convert_md5_bytes_to_str (replicate 16 0))
   \<and> Inr (calculate_md5_file (\<lambda>s. 0) [''out'' \<mapsto> ''abc''] ''out'')
       = get_content_md5 5 (ok_header (base64_encode (replicate 16 0)))"
proof -
  let ?pre = "''HTTP/1.1 200 OK'' @ CRLF @ ''Content-Length: 3'' @ CRLF"
  have h1: "length (replicate 16 (0 :: byte)) = 16"
    by simp
  have h2: "find_str (?pre @ ''Content-MD5: '') ''Content-MD5: '' = Some (length ?pre)"
    by (simp add: CRLF_def)
  have h3: "CRLF @ CRLF = [] \<or> \<not> md5_class (hd (CRLF @ CRLF))"
    by (simp add: CRLF_def md5_class_def)
  have h4: "[''out'' \<mapsto> ''abc''] ''out'' = Some ''abc'' \<and> array16 ((\<lambda>s. 0) ''abc'') = replicate 16 0"
    by (simp add: array16_def numeral_eq_Suc)
  show ?thesis
    using h1 h4 content_md5_roundtrip [OF h1 h2 h3, of 5]
    by (simp add: ok_header_def)
qed

lemma convert_zero:
  "convert_md5_bytes_to_str (replicate 16 0) = ''00000000000000000000000000000000''"
  by (simp add: convert_md5_bytes_to_str_def MD5_DIGEST_LENGTH_def hex2_def hex_digit_def upt_rec)

text \<open>
  Claim C10 as stated, for every header block that contains \<open>Content-MD5: \<close> followed
  by the encoding, fails: a character of the class right after the encoding belongs
  to the capture, and an earlier \<open>Content-MD5: \<close> header is the one that is read.
\<close>

theorem content_md5_roundtrip_counterexample:
  "get_content_md5 0 (''Content-MD5: '' @ base64_encode (replicate 16 0) @ ''-'')
     \<noteq> Inr (convert_md5_bytes_to_str (replicate 16 0))
   \<and> get_content_md5 0 (''Content-MD5: -'' @ CRLF @ ''Content-MD5: '' @ base64_encode (replicate 16 0) @ CRLF)
     \<noteq> Inr (convert_md5_bytes_to_str (replicate 16 0))"
proof -
  have "get_content_md5 0 (''Content-MD5: '' @ ''AAAAAAAAAAAAAAAAAAAAAA=='' @ ''-'') = Inr []"
    by (simp add: get_content_md5_def search_content_md5_def match_here_def md5_class_def
        isspace_def base64_chars_def MD5_DIGEST_LENGTH_def)
  moreover have "get_content_md5 0
      (''Content-MD5: -'' @ CRLF @ ''Content-MD5: '' @ ''AAAAAAAAAAAAAAAAAAAAAA=='' @ CRLF) = Inr []"
    by (simp add: get_content_md5_def search_content_md5_def match_here_def md5_class_def
        isspace_def base64_chars_def MD5_DIGEST_LENGTH_def CRLF_def)
  ultimately show ?thesis
    by (simp only: base64_encode_zero convert_zero) simp
qed


text \<open>What the two extractions return when their header is absent, and the length of a checksum.\<close>

lemma length_convert_md5_bytes_to_str: "length (convert_md5_bytes_to_str bs) = 32"
  by (simp add: convert_md5_bytes_to_str_def MD5_DIGEST_LENGTH_def hex2_def length_concat
      comp_def sum_list_triv)

lemma get_content_md5_length:
  "get_content_md5 u header = Inr s \<Longrightarrow> s = [] \<or> length s = 32"
  by (auto simp: get_content_md5_def length_convert_md5_bytes_to_str
      split: option.splits decoded.splits)

lemma get_content_md5_absent:
  "search_content_md5 header = None \<Longrightarrow> get_content_md5 u header = Inr []"
  by (simp add: get_content_md5_def)

lemma get_file_size_absent:
  "search_content_length header = None \<Longrightarrow> get_file_size header = Inr 0"
  by (simp add: get_file_size_def)

text \<open>The two comparisons at their boundary: 99 of 100 is not short.\<close>

lemma size_short_boundary:
  "size_short 989 1000" "\<not> size_short 990 1000" "size_short 98 100" "\<not> size_short 99 100"
  by (simp_all add: size_short_def less_99_def round_fp_def bit_length.simps)

lemma header_short_boundary:
  "header_short 989 1000" "\<not> header_short 990 1000" "header_short 0 1"
  by (simp_all add: header_short_def less_99_def round_fp_def bit_length.simps)

text \<open>
  Claim C7: the checksum extraction returns the empty string at the first character
  outside the alphabet, and otherwise the 16 decoded bytes in hexadecimal. The code
  does not check how many bytes the captured value decodes to. With the value
  \<open>AAAA\<close> (three bytes) the other thirteen bytes of the result are whatever the
  uninitialised array held, so the result is not determined by the header; with 24
  characters (18 bytes) the loop writes past the end of the array.
\<close>

theorem get_content_md5_wrong_length:
  "get_content_md5 0 (ok_header ''AAAA'') = Inr ''00000000000000000000000000000000''
   \<and> get_content_md5 0xFFFFFFFFFFFFFFFFFFFFFFFFFFFFFFFF (ok_header ''AAAA'')
       = Inr ''000000FFFFFFFFFFFFFFFFFFFFFFFFFF''
   \<and> get_content_md5 0 (ok_header ''AAAAAAAAAAAAAAAAAAAAAAAA'') = Inl BufferOverflow"
  by (simp add: ok_header_def CRLF_def get_content_md5_def search_content_md5_def
      match_here_def md5_class_def isspace_def base64_chars_def MD5_DIGEST_LENGTH_def
      array16_def upt_rec convert_md5_bytes_to_str_def hex2_def hex_digit_def)


subsection \<open>The steps of \<open>download_file\<close>\<close>

lemma then_flow_Next: "then_flow x k = Next t \<longleftrightarrow> (\<exists>a. x = Next a \<and> k a = Next t)"
  by (cases x) auto

lemma then_flow_Return:
  "then_flow x k = Return b t \<longleftrightarrow> x = Return b t \<or> (\<exists>a. x = Next a \<and> k a = Return b t)"
  by (cases x) auto

lemma then_flow_Raise:
  "then_flow x k = Raise f t \<longleftrightarrow> x = Raise f t \<or> (\<exists>a. x = Next a \<and> k a = Raise f t)"
  by (cases x) auto

lemma flow_state_simps [simp]:
  "flow_state (Raise f t) = t" "flow_state (Return b t) = t" "flow_state (Next t) = t"
  by (simp_all add: flow_state_def)

lemma flow_state_then_flow:
  "flow_state (then_flow x k) = (case x of Next a \<Rightarrow> flow_state (k a) | _ \<Rightarrow> flow_state x)"
  by (cases x) simp_all

lemma get_web_response_task:
  "get_web_response e t u m = (r, t') \<Longrightarrow> t' = t\<lparr>requests := requests t @ [(u, m, 0)]\<rparr>"
  by (auto simp: get_web_response_def Let_def split: option.splits sum.splits if_splits)

lemma probe_Next:
  assumes "probe e t = Next t'"
  shows "t' = t\<lparr>requests := requests t @ [(url t, ''HEAD'', 0)], response := response t'\<rparr>"
    and "response t' \<noteq> []"
    and "get_web_response e t (url t) ''HEAD''
           = (Inr (response t'), t\<lparr>requests := requests t @ [(url t, ''HEAD'', 0)]\<rparr>)"
  using assms
  by (auto simp: probe_def Let_def split: sum.splits prod.splits if_splits
      dest!: get_web_response_task)

lemma probe_Return:
  assumes "probe e t = Return b t'"
  shows "\<not> b" and "files t' = files t" and "url t' = url t"
    and "requests t' = requests t @ [(url t, ''HEAD'', 0)]"
  using assms
  by (auto simp: probe_def Let_def log_add_def split: sum.splits prod.splits if_splits
      dest!: get_web_response_task)

lemma probe_state:
  "url (flow_state (probe e t)) = url t
   \<and> files (flow_state (probe e t)) = files t
   \<and> requests (flow_state (probe e t)) = requests t @ [(url t, ''HEAD'', 0)]"
  by (auto simp: probe_def Let_def log_add_def split: sum.splits prod.splits if_splits
      dest!: get_web_response_task)

lemma follow_redirect_plain:
  "\<not> contains (response t) ''HTTP/1.1 302 Found'' \<Longrightarrow> follow_redirect e t = Next t"
  by (simp add: follow_redirect_def)

lemma follow_redirect_lost:
  assumes "contains (response t) ''HTTP/1.1 302 Found''" and "search_location (response t) = None"
  shows "\<exists>t'. follow_redirect e t = Return False t' \<and> requests t' = requests t
      \<and> files t' = files t \<and> url t' = url t"
  using assms by (simp add: follow_redirect_def log_add_def)

lemma follow_redirect_found:
  assumes "contains (response t) ''HTTP/1.1 302 Found''"
    and "search_location (response t) = Some location"
  shows "case follow_redirect e t of
           Raise f t' \<Rightarrow> url t' = location \<and> files t' = files t
             \<and> requests t' = requests t @ [(location, ''HEAD'', 0)]
         | Return b t' \<Rightarrow> \<not> b \<and> url t' = location \<and> files t' = files t
             \<and> requests t' = requests t @ [(location, ''HEAD'', 0)]
         | Next t' \<Rightarrow> url t' = location \<and> files t' = files t \<and> log t' = log t
             \<and> calls t' = calls t \<and> progress_state t' = progress_state t
             \<and> response t' \<noteq> []
             \<and> requests t' = requests t @ [(location, ''HEAD'', 0)]"
  using assms
  by (auto simp: follow_redirect_def Let_def log_add_def split: sum.splits prod.splits
      dest!: get_web_response_task)

lemma follow_redirect_state:
  "files (flow_state (follow_redirect e t)) = files t
   \<and> (requests (flow_state (follow_redirect e t)) = requests t
        \<and> url (flow_state (follow_redirect e t)) = url t
      \<or> requests (flow_state (follow_redirect e t))
          = requests t @ [(url (flow_state (follow_redirect e t)), ''HEAD'', 0)])"
  by (auto simp: follow_redirect_def Let_def log_add_def split: sum.splits prod.splits option.splits
      dest!: get_web_response_task)

lemma not_found_check_Next: "not_found_check t = Next t' \<Longrightarrow> t' = t"
  by (simp add: not_found_check_def split: if_splits)

lemma not_found_check_Return:
  "not_found_check t = Return b t' \<Longrightarrow> \<not> b \<and> t' = log_add ERROR ''404 Not Found'' t"
  by (simp add: not_found_check_def split: if_splits)

lemma not_found_check_state:
  "url (flow_state (not_found_check t)) = url t
   \<and> files (flow_state (not_found_check t)) = files t
   \<and> requests (flow_state (not_found_check t)) = requests t"
  by (simp add: not_found_check_def log_add_def)

lemma not_found_check_no_Raise: "not_found_check t \<noteq> Raise f t'"
  by (simp add: not_found_check_def)

text \<open>However the probe ends, the files are as before and the requests are one or two probes.\<close>

lemma probed_state:
  "files (flow_state (probed e fs u)) = fs \<and> probes u (flow_state (probed e fs u))"
proof -
  let ?t0 = "start_task e fs u"
  have t0: "files ?t0 = fs" "url ?t0 = u" "requests ?t0 = []"
    by (simp_all add: start_task_def)
  note p = probe_state [of e ?t0, unfolded t0]
  show ?thesis
  proof (cases "probe e ?t0")
    case (Raise f t)
    then show ?thesis
      using p by (simp add: probed_def probes_def)
  next
    case (Return b t)
    then show ?thesis
      using p by (simp add: probed_def probes_def)
  next
    case n1: (Next t1)
    then have t1: "files t1 = fs" "url t1 = u" "requests t1 = [(u, ''HEAD'', 0)]"
      using p by simp_all
    note fr = follow_redirect_state [of e t1, unfolded t1]
    show ?thesis
    proof (cases "follow_redirect e t1")
      case (Raise f t)
      then show ?thesis
        using fr n1 by (auto simp: probed_def probes_def)
    next
      case (Return b t)
      then show ?thesis
        using fr n1 by (auto simp: probed_def probes_def)
    next
      case (Next t2)
      then have "probed e fs u = not_found_check t2"
        using n1 by (simp add: probed_def)
      then show ?thesis
        using fr Next not_found_check_state [of t2] by (auto simp: probes_def)
    qed
  qed
qed

lemma probed_Next:
  assumes "probed e fs u = Next t"
  shows "files t = fs" and "log t = []" and "calls t = 0"
    and "progress_state t = initial_state e" and "probes u t" and "response t \<noteq> []"
proof -
  from assms obtain t1 t2 where 1: "probe e (start_task e fs u) = Next t1"
    and 2: "follow_redirect e t1 = Next t2" and 3: "not_found_check t2 = Next t"
    by (auto simp: probed_def then_flow_Next)
  have t: "t = t2"
    using 3 by (rule not_found_check_Next)
  note p = probe_Next [OF 1]
  have t1: "log t1 = []" "calls t1 = 0" "progress_state t1 = initial_state e"
    by (subst p(1), simp add: start_task_def)+
  show "files t = fs" and "probes u t"
    using probed_state [of e fs u] assms by simp_all
  have "log t = [] \<and> calls t = 0 \<and> progress_state t = initial_state e \<and> response t \<noteq> []"
  proof (cases "contains (response t1) ''HTTP/1.1 302 Found''")
    case False
    then have "t2 = t1"
      using 2 by (simp add: follow_redirect_plain)
    then show ?thesis
      using t1 p(2) by (simp add: t)
  next
    case True
    then obtain location where "search_location (response t1) = Some location"
      using 2 follow_redirect_lost [of t1 e] by (cases "search_location (response t1)") auto
    from follow_redirect_found [OF True this, of e]
    show ?thesis
      using t1 by (simp add: 2 t)
  qed
  then show "log t = []" and "calls t = 0"
    and "progress_state t = initial_state e" and "response t \<noteq> []"
    by simp_all
qed

lemma probed_Return:
  assumes "probed e fs u = Return b t"
  shows "\<not> b" and "files t = fs" and "probes u t"
proof -
  show "files t = fs" and "probes u t"
    using probed_state [of e fs u] assms by simp_all
  consider "probe e (start_task e fs u) = Return b t"
    | t1 where "follow_redirect e t1 = Return b t"
        "probe e (start_task e fs u) = Next t1"
    | t2 where "not_found_check t2 = Return b t"
    using assms by (auto simp: probed_def then_flow_Return then_flow_Next)
  then show "\<not> b"
  proof cases
    case 1
    then show ?thesis
      by (rule probe_Return(1))
  next
    case 2
    then show ?thesis
      by (auto simp: follow_redirect_def Let_def split: if_splits option.splits prod.splits sum.splits)
  next
    case 3
    then show ?thesis
      using not_found_check_Return by blast
  qed
qed

lemma same_world_trans: "same_world t t' \<Longrightarrow> same_world t' t'' \<Longrightarrow> same_world t t''"
  by (simp add: same_world_def)

lemma read_metadata_Next:
  assumes "read_metadata e t = Next t'"
  shows "same_world t t'" and "requests t' = requests t"
    and "get_content_md5 (uninit e) (response t) = Inr (content_md5 t')" and "content_md5 t' \<noteq> []"
    and "get_file_size (response t) = Inr (file_size t')" and "file_size t' \<noteq> 0"
  using assms
  by (auto simp: read_metadata_def same_world_def Let_def split: sum.splits if_splits)

lemma read_metadata_Return:
  assumes "read_metadata e t = Return b t'"
  shows "\<not> b" and "files t' = files t" and "requests t' = requests t" and "url t' = url t"
  using assms
  by (auto simp: read_metadata_def Let_def log_add_def split: sum.splits if_splits)

lemma read_metadata_state:
  "url (flow_state (read_metadata e t)) = url t
   \<and> files (flow_state (read_metadata e t)) = files t
   \<and> requests (flow_state (read_metadata e t)) = requests t"
  by (auto simp: read_metadata_def Let_def log_add_def split: sum.splits)

lemma read_metadata_missing:
  assumes "get_content_md5 (uninit e) (response t) = Inr []
      \<or> (\<exists>m. get_content_md5 (uninit e) (response t) = Inr m) \<and> get_file_size (response t) = Inr 0"
  shows "\<exists>t'. read_metadata e t = Return False t' \<and> files t' = files t
      \<and> requests t' = requests t \<and> url t' = url t"
  using assms
  by (auto simp: read_metadata_def Let_def log_add_def)

lemma open_stream_Next:
  assumes "open_stream e (resume_offset p t) = Next t'"
  shows "same_world t t'" and "content_md5 t' = content_md5 t" and "file_size t' = file_size t"
    and "downloaded_file_size t' = (case files t p of None \<Rightarrow> 0 | Some bytes \<Rightarrow> length bytes)"
    and "requests t' = requests t @ [(url t, ''GET'', downloaded_file_size t')]"
  using assms
  by (auto simp: open_stream_def resume_offset_def same_world_def Let_def split: option.splits)

lemma open_stream_Return:
  assumes "open_stream e (resume_offset p t) = Return b t'"
  shows "\<not> b" and "url t' = url t" and "files t' = files t"
    and "requests t' = requests t @ [(url t, ''GET'', downloaded_file_size t')]"
  using assms
  by (auto simp: open_stream_def resume_offset_def Let_def split: option.splits)

lemma open_stream_no_Raise: "open_stream e t \<noteq> Raise f t'"
  by (simp add: open_stream_def Let_def split: option.splits)

lemma skip_header_Next:
  assumes "skip_header t = Next t'"
  shows "same_world t t'" and "content_md5 t' = content_md5 t" and "file_size t' = file_size t"
    and "downloaded_file_size t' = downloaded_file_size t" and "requests t' = requests t"
    and "outfile t' = outfile t"
  using assms
  by (auto simp: skip_header_def same_world_def Let_def split: prod.splits if_splits)

lemma skip_header_Return:
  assumes "skip_header t = Return b t'"
  shows "\<not> b" and "files t' = files t" and "requests t' = requests t" and "url t' = url t"
  using assms
  by (auto simp: skip_header_def Let_def log_add_def split: prod.splits if_splits)

lemma skip_header_state:
  "url (flow_state (skip_header t)) = url t
   \<and> files (flow_state (skip_header t)) = files t
   \<and> requests (flow_state (skip_header t)) = requests t"
  by (auto simp: skip_header_def Let_def log_add_def split: prod.splits)

lemma prepare_Next:
  assumes "prepare e p t0 = Next t"
  shows "same_world t0 t"
    and "downloaded_file_size t = (case files t0 p of None \<Rightarrow> 0 | Some bytes \<Rightarrow> length bytes)"
    and "requests t = requests t0 @ [(url t0, ''GET'', downloaded_file_size t)]"
    and "get_content_md5 (uninit e) (response t0) = Inr (content_md5 t)" and "content_md5 t \<noteq> []"
    and "get_file_size (response t0) = Inr (file_size t)" and "file_size t \<noteq> 0"
proof -
  from assms obtain t1 t2 where 1: "read_metadata e t0 = Next t1"
    and 2: "open_stream e (resume_offset p t1) = Next t2" and 3: "skip_header t2 = Next t"
    by (auto simp: prepare_def then_flow_Next)
  note m = read_metadata_Next [OF 1] and os = open_stream_Next [OF 2] and sh = skip_header_Next [OF 3]
  show "same_world t0 t"
    using m(1) os(1) sh(1) by (blast intro: same_world_trans)
  have w: "url t1 = url t0" "files t1 = files t0"
    using m(1) by (simp_all add: same_world_def)
  show "downloaded_file_size t = (case files t0 p of None \<Rightarrow> 0 | Some bytes \<Rightarrow> length bytes)"
    and "requests t = requests t0 @ [(url t0, ''GET'', downloaded_file_size t)]"
    and "get_content_md5 (uninit e) (response t0) = Inr (content_md5 t)" and "content_md5 t \<noteq> []"
    and "get_file_size (response t0) = Inr (file_size t)" and "file_size t \<noteq> 0"
    using m(2-6) os(2-5) sh(2-5) by (simp_all add: w)
qed

lemma prepare_Return:
  assumes "prepare e p t0 = Return b t"
  shows "\<not> b"
proof -
  consider (at_meta) "read_metadata e t0 = Return b t"
    | (at_open) t1 where "open_stream e (resume_offset p t1) = Return b t"
    | (at_header) t2 where "skip_header t2 = Return b t"
    using assms by (auto simp: prepare_def then_flow_Return then_flow_Next)
  then show ?thesis
  proof cases
    case at_meta
    then show ?thesis
      by (rule read_metadata_Return(1))
  next
    case at_open
    then show ?thesis
      by (rule open_stream_Return(1))
  next
    case at_header
    then show ?thesis
      by (rule skip_header_Return(1))
  qed
qed

text \<open>
  However the steps from the metadata to the header read end, the URL and the files
  are as before, and at most the \<open>GET\<close> request was added.
\<close>

lemma prepare_state:
  "url (flow_state (prepare e p t0)) = url t0
   \<and> files (flow_state (prepare e p t0)) = files t0
   \<and> (requests (flow_state (prepare e p t0)) = requests t0
      \<or> (\<exists>off. requests (flow_state (prepare e p t0)) = requests t0 @ [(url t0, ''GET'', off)]))"
proof (cases "read_metadata e t0")
  case (Raise f t)
  then show ?thesis
    using read_metadata_state [of e t0] by (simp add: prepare_def)
next
  case (Return b t)
  then show ?thesis
    using read_metadata_state [of e t0] by (simp add: prepare_def)
next
  case n1: (Next t1)
  then have t1: "url t1 = url t0" "files t1 = files t0" "requests t1 = requests t0"
    using read_metadata_state [of e t0] by simp_all
  show ?thesis
  proof (cases "open_stream e (resume_offset p t1)")
    case (Raise f t)
    then show ?thesis
      using open_stream_no_Raise by blast
  next
    case (Return b t)
    then show ?thesis
      using open_stream_Return [OF Return] n1 t1 by (auto simp: prepare_def)
  next
    case (Next t2)
    note os = open_stream_Next [OF Next]
    have "url t2 = url t0" "files t2 = files t0"
      using os(1) t1 by (simp_all add: same_world_def)
    then show ?thesis
      using skip_header_state [of t2] os(5) n1 Next t1 by (auto simp: prepare_def)
  qed
qed

lemma prepare_missing:
  assumes "get_content_md5 (uninit e) (response t) = Inr []
      \<or> (\<exists>m. get_content_md5 (uninit e) (response t) = Inr m) \<and> get_file_size (response t) = Inr 0"
  shows "\<exists>t'. prepare e p t = Return False t' \<and> files t' = files t
      \<and> requests t' = requests t \<and> url t' = url t"
  using read_metadata_missing [OF assms] by (auto simp: prepare_def)

lemma prepare_fault:
  "get_content_md5 (uninit e) (response t) = Inl f \<Longrightarrow> prepare e p t = Raise f t"
  by (simp add: prepare_def read_metadata_def)

text \<open>The part before the loop as a whole.\<close>

lemma before_stream_frame:
  "url (flow_state (before_stream e fs u p)) = url (flow_state (probed e fs u))
   \<and> files (flow_state (before_stream e fs u p)) = fs
   \<and> (requests (flow_state (before_stream e fs u p)) = requests (flow_state (probed e fs u))
      \<or> (\<exists>off. requests (flow_state (before_stream e fs u p))
            = requests (flow_state (probed e fs u))
              @ [(url (flow_state (probed e fs u)), ''GET'', off)]))"
proof (cases "probed e fs u")
  case (Raise f t)
  then show ?thesis
    using probed_state [of e fs u] by (simp add: before_stream_def)
next
  case (Return b t)
  then show ?thesis
    using probed_state [of e fs u] by (simp add: before_stream_def)
next
  case (Next t0)
  then have bs: "before_stream e fs u p = prepare e p t0"
    by (simp add: before_stream_def)
  show ?thesis
    unfolding bs using prepare_state [of e p t0] probed_state [of e fs u] by (simp add: Next)
qed

lemma before_stream_Return: "before_stream e fs u p = Return b t \<Longrightarrow> \<not> b"
  using probed_Return(1) prepare_Return
  by (fastforce simp: before_stream_def then_flow_Return)

lemma before_stream_Next:
  assumes "before_stream e fs u p = Next t"
  obtains t0 where "probed e fs u = Next t0" and "prepare e p t0 = Next t"
  using assms by (auto simp: before_stream_def then_flow_Next)

subsection \<open>The loop\<close>

lemma same_plan_refl: "same_plan t t"
  by (simp add: same_plan_def)

lemma same_plan_trans: "same_plan t t' \<Longrightarrow> same_plan t' t'' \<Longrightarrow> same_plan t t''"
  by (simp add: same_plan_def)

lemma invoke_callback_plan: "same_plan t (invoke_callback cb t)"
  by (simp add: invoke_callback_def same_plan_def split: option.splits)

lemma invoke_callback_signal:
  "progress_state (invoke_callback cb t)
     = (case cb of None \<Rightarrow> progress_state t | Some f \<Rightarrow> f (calls (invoke_callback cb t) - 1))"
  by (simp add: invoke_callback_def split: option.splits)

lemma invoke_callback_none: "invoke_callback None t = t"
  by (simp add: invoke_callback_def)

lemma write_outfile_plan: "same_plan t (write_outfile p data t)"
  and write_outfile_signal: "progress_state (write_outfile p data t) = progress_state t"
  by (simp_all add: write_outfile_def same_plan_def split: option.splits)

lemma loop_body_plan:
  assumes "loop_body p cb t = Inr t'"
  shows "same_plan t t'" and "cb = None \<Longrightarrow> progress_state t' = progress_state t"
  using assms
  by (auto simp: loop_body_def Let_def same_plan_def invoke_callback_def write_outfile_def
      split: prod.splits if_splits option.splits)

lemma loop_body_fault:
  assumes "loop_body p cb t = Inl (f, t')"
  shows "same_plan t t'"
  using assms
  by (auto simp: loop_body_def Let_def same_plan_def split: prod.splits if_splits)

lemma body_loop_plan:
  assumes "body_loop p cb t = Some y"
  shows "same_plan t (case y of Inl (f, t') \<Rightarrow> t' | Inr t' \<Rightarrow> t')
     \<and> (\<forall>t'. y = Inr t' \<longrightarrow> cb = None \<longrightarrow> progress_state t' = progress_state t)"
proof (rule body_loop.raw_induct [OF _ assms])
  fix approx p cb t y
  assume IH: "\<And>p cb t y. approx p cb t = Some y \<Longrightarrow>
      same_plan t (case y of Inl (f, t') \<Rightarrow> t' | Inr t' \<Rightarrow> t')
      \<and> (\<forall>t'. y = Inr t' \<longrightarrow> cb = None \<longrightarrow> progress_state t' = progress_state t)"
    and step: "(if download (progress_state t) \<and> bytes_read t \<noteq> 0
                then case loop_body p cb t of Inl x \<Rightarrow> Some (Inl x) | Inr t' \<Rightarrow> approx p cb t'
                else Some (Inr t)) = Some y"
  show "same_plan t (case y of Inl (f, t') \<Rightarrow> t' | Inr t' \<Rightarrow> t')
      \<and> (\<forall>t'. y = Inr t' \<longrightarrow> cb = None \<longrightarrow> progress_state t' = progress_state t)"
  proof (cases "download (progress_state t) \<and> bytes_read t \<noteq> 0")
    case False
    then show ?thesis
      using step by (auto simp: same_plan_refl)
  next
    case True
    show ?thesis
    proof (cases "loop_body p cb t")
      case (Inl x)
      obtain f t' where x: "x = (f, t')"
        by (cases x)
      have "y = Inl (f, t')"
        using step True Inl x by simp
      then show ?thesis
        using loop_body_fault [of p cb t f t'] Inl x by simp
    next
      case (Inr t1)
      then have "approx p cb t1 = Some y"
        using step True by simp
      from IH [OF this] loop_body_plan [OF Inr] show ?thesis
        by (auto intro: same_plan_trans)
    qed
  qed
qed

lemma loop_reaches_plan:
  "loop_reaches p cb t0 t \<Longrightarrow> same_plan t0 t"
  by (induction rule: loop_reaches.induct)
    (auto intro: same_plan_refl same_plan_trans loop_body_plan(1))

lemma open_outfile_plan: "same_plan t (open_outfile e p t)"
  and open_outfile_signal: "progress_state (open_outfile e p t) = progress_state t"
  by (simp_all add: open_outfile_def same_plan_def split: option.splits)

lemma close_outfile_plan: "same_plan t (close_outfile t)"
  and close_outfile_signal: "progress_state (close_outfile t) = progress_state t"
  by (simp_all add: close_outfile_def same_plan_def)

lemma stream_body_Next:
  assumes "stream_body e p cb t0 = Some (Next t)"
  shows "same_plan t0 t"
    and "progress_state t = (case cb of None \<Rightarrow> progress_state t0 | Some f \<Rightarrow> f (calls t - 1))"
proof -
  from assms obtain t1 where loop: "body_loop p cb (open_outfile e p t0) = Some (Inr t1)"
    and t: "t = invoke_callback cb (close_outfile t1)"
    by (auto simp: stream_body_def split: option.splits sum.splits prod.splits)
  from body_loop_plan [OF loop]
  have 1: "same_plan (open_outfile e p t0) t1"
    and 2: "cb = None \<Longrightarrow> progress_state t1 = progress_state (open_outfile e p t0)"
    by simp_all
  show "same_plan t0 t"
    unfolding t using open_outfile_plan 1 close_outfile_plan invoke_callback_plan
    by (blast intro: same_plan_trans)
  show "progress_state t = (case cb of None \<Rightarrow> progress_state t0 | Some f \<Rightarrow> f (calls t - 1))"
    unfolding t using 2
    by (cases cb) (simp_all add: invoke_callback_def open_outfile_signal close_outfile_signal)
qed

lemma stream_body_Raise:
  assumes "stream_body e p cb t0 = Some (Raise f t)"
  shows "same_plan t0 t"
proof -
  from assms have loop: "body_loop p cb (open_outfile e p t0) = Some (Inl (f, t))"
    by (auto simp: stream_body_def split: option.splits sum.splits prod.splits)
  from body_loop_plan [OF loop] have "same_plan (open_outfile e p t0) t"
    by simp
  then show ?thesis
    using open_outfile_plan by (blast intro: same_plan_trans)
qed

lemma stream_body_no_Return: "stream_body e p cb t0 \<noteq> Some (Return b t)"
  by (auto simp: stream_body_def split: option.splits sum.splits prod.splits)

text \<open>The ways \<open>transfer\<close> ends.\<close>

lemma transfer_Next:
  assumes "transfer e fs u p cb = Some (Next t)"
  obtains t0 t1 where "probed e fs u = Next t0" and "prepare e p t0 = Next t1"
    and "before_stream e fs u p = Next t1" and "stream_body e p cb t1 = Some (Next t)"
  using assms
  by (auto simp: transfer_def before_stream_def then_flow_Next split: flow.splits)

lemma transfer_Return:
  assumes "transfer e fs u p cb = Some (Return b t)"
  shows "before_stream e fs u p = Return b t"
  using assms
  by (auto simp: transfer_def stream_body_no_Return split: flow.splits)

lemma transfer_Return_False: "transfer e fs u p cb = Some (Return b t) \<Longrightarrow> \<not> b"
  using transfer_Return before_stream_Return by blast

lemma transfer_state:
  assumes "transfer e fs u p cb = Some x"
  shows "url (flow_state x) = url (flow_state (before_stream e fs u p))"
    and "requests (flow_state x) = requests (flow_state (before_stream e fs u p))"
proof -
  have "url (flow_state x) = url (flow_state (before_stream e fs u p))
      \<and> requests (flow_state x) = requests (flow_state (before_stream e fs u p))"
  proof (cases "before_stream e fs u p")
    case (Raise f t)
    then show ?thesis
      using assms by (auto simp: transfer_def)
  next
    case (Return b t)
    then show ?thesis
      using assms by (auto simp: transfer_def)
  next
    case (Next t1)
    then have sb: "stream_body e p cb t1 = Some x"
      using assms by (simp add: transfer_def)
    have "same_plan t1 (flow_state x)"
    proof (cases x)
      case (Raise f t)
      then show ?thesis
        using sb stream_body_Raise by simp
    next
      case (Return b t)
      then show ?thesis
        using sb stream_body_no_Return by simp
    next
      case n: (Next t)
      then show ?thesis
        using sb stream_body_Next(1) by simp
    qed
    then show ?thesis
      using Next by (simp add: same_plan_def)
  qed
  then show "url (flow_state x) = url (flow_state (before_stream e fs u p))"
    and "requests (flow_state x) = requests (flow_state (before_stream e fs u p))"
    by simp_all
qed

lemma transfer_Next_facts:
  assumes "transfer e fs u p cb = Some (Next t)"
  shows "get_content_md5 (uninit e) (response t) = Inr (content_md5 t)" and "content_md5 t \<noteq> []"
    and "get_file_size (response t) = Inr (file_size t)" and "file_size t \<noteq> 0"
    and "log t = []"
    and "progress_state t = (case cb of None \<Rightarrow> initial_state e | Some f \<Rightarrow> f (calls t - 1))"
proof -
  from assms obtain t0 t1 where 0: "probed e fs u = Next t0" and 1: "prepare e p t0 = Next t1"
    and 2: "stream_body e p cb t1 = Some (Next t)"
    by (rule transfer_Next)
  note a = probed_Next [OF 0] and b = prepare_Next [OF 1] and c = stream_body_Next [OF 2]
  have w: "url t1 = url t0" "response t1 = response t0" "log t1 = log t0"
    "progress_state t1 = progress_state t0"
    using b(1) by (simp_all add: same_world_def)
  have s: "url t = url t1" "response t = response t1" "content_md5 t = content_md5 t1"
    "file_size t = file_size t1" "requests t = requests t1" "log t = log t1"
    using c(1) by (simp_all add: same_plan_def)
  show "get_content_md5 (uninit e) (response t) = Inr (content_md5 t)" and "content_md5 t \<noteq> []"
    and "get_file_size (response t) = Inr (file_size t)" and "file_size t \<noteq> 0"
    and "log t = []"
    using b(4-7) a(2) by (simp_all add: s w)
  show "progress_state t = (case cb of None \<Rightarrow> initial_state e | Some f \<Rightarrow> f (calls t - 1))"
    using c(2) a(4) by (cases cb) (simp_all add: w)
qed

lemma final_checks_frame:
  "final_checks e p t = (b, t') \<Longrightarrow> url t' = url t \<and> requests t' = requests t"
  by (auto simp: final_checks_def Let_def log_add_def split: if_splits)

text \<open>
  However a call ends, it ends with the URL and the requests with which the part
  before the loop ended: the loop and the final checks open no connection.
\<close>

lemma download_file_state:
  assumes "download_file e fs u p cb = Some r"
  shows "url (end_state r) = url (flow_state (before_stream e fs u p))"
    and "requests (end_state r) = requests (flow_state (before_stream e fs u p))"
proof -
  from assms obtain x where x: "transfer e fs u p cb = Some x"
    by (cases "transfer e fs u p cb") (simp_all add: download_file_def)
  note st = transfer_state [OF x]
  have "url (end_state r) = url (flow_state x) \<and> requests (end_state r) = requests (flow_state x)"
  proof (cases x)
    case (Raise f t)
    then show ?thesis
      using assms x by (auto simp: download_file_def end_state_def)
  next
    case (Return b t)
    then show ?thesis
      using assms x by (auto simp: download_file_def end_state_def)
  next
    case (Next t)
    then have "r = Inr (final_checks e p t)"
      using assms x by (simp add: download_file_def)
    then show ?thesis
      using final_checks_frame [of e p t] Next
      by (cases "final_checks e p t") (simp add: end_state_def)
  qed
  then show "url (end_state r) = url (flow_state (before_stream e fs u p))"
    and "requests (end_state r) = requests (flow_state (before_stream e fs u p))"
    using st by simp_all
qed

subsection \<open>The properties of \<open>download_file\<close>\<close>

text \<open>
  For the calls that return: the result is \<open>true\<close> exactly when the call reached the
  two final checks and both succeeded, the downloaded size not short of 99% of the
  expected size and the MD5 string of the output file equal to the checksum, which
  is the one decoded from the \<open>Content-MD5\<close> header of the probe response. Every
  \<open>return\<close> statement before the final checks returns \<open>false\<close>.
\<close>

lemma returned_true_iff:
  assumes "download_file e fs u p cb = Some (Inr (b, t'))"
  shows "b \<longleftrightarrow>
     (\<exists>t. transfer e fs u p cb = Some (Next t)
        \<and> \<not> size_short (downloaded_file_size t) (file_size t)
        \<and> calculate_md5_file (md5 e) (files t) p = content_md5 t
        \<and> get_content_md5 (uninit e) (response t) = Inr (content_md5 t)
        \<and> get_file_size (response t) = Inr (file_size t)
        \<and> t' = t)"
proof (cases "transfer e fs u p cb")
  case None
  then show ?thesis
    using assms by (simp add: download_file_def)
next
  case (Some r)
  show ?thesis
  proof (cases r)
    case (Raise f t)
    then show ?thesis
      using assms Some by (simp add: download_file_def)
  next
    case (Return b0 t0)
    then have "\<not> b0"
      using Some transfer_Return_False by blast
    then show ?thesis
      using assms Some Return by (simp add: download_file_def)
  next
    case (Next t)
    then have tr: "transfer e fs u p cb = Some (Next t)"
      using Some by simp
    have fc: "final_checks e p t = (b, t')"
      using assms tr by (simp add: download_file_def)
    note facts = transfer_Next_facts(1,3) [OF tr]
    show ?thesis
      using fc facts by (auto simp: tr final_checks_def Let_def split: if_splits)
  qed
qed

text \<open>
  When the output file neither exists nor can be opened for writing, the loop counts
  the bytes it receives without writing them, and no call returns \<open>true\<close>: the file
  cannot be hashed, and the empty string is not a checksum.
\<close>

lemma loop_body_unopened:
  assumes "loop_body p cb t = Inr t'" and "outfile t = None"
  shows "outfile t' = None \<and> files t' = files t"
  using assms
  by (auto simp: loop_body_def Let_def invoke_callback_def write_outfile_def
      split: prod.splits if_splits option.splits)

lemma body_loop_unopened:
  assumes "body_loop p cb t = Some y"
  shows "outfile t = None \<longrightarrow> (\<forall>t'. y = Inr t' \<longrightarrow> outfile t' = None \<and> files t' = files t)"
proof (rule body_loop.raw_induct [OF _ assms])
  fix approx p cb t y
  assume IH: "\<And>p cb t y. approx p cb t = Some y \<Longrightarrow>
      outfile t = None \<longrightarrow> (\<forall>t'. y = Inr t' \<longrightarrow> outfile t' = None \<and> files t' = files t)"
    and step: "(if download (progress_state t) \<and> bytes_read t \<noteq> 0
                then case loop_body p cb t of Inl x \<Rightarrow> Some (Inl x) | Inr t' \<Rightarrow> approx p cb t'
                else Some (Inr t)) = Some y"
  show "outfile t = None \<longrightarrow> (\<forall>t'. y = Inr t' \<longrightarrow> outfile t' = None \<and> files t' = files t)"
  proof (cases "download (progress_state t) \<and> bytes_read t \<noteq> 0")
    case False
    then show ?thesis
      using step by auto
  next
    case True
    show ?thesis
    proof (cases "loop_body p cb t")
      case (Inl x)
      then show ?thesis
        using step True by auto
    next
      case (Inr t1)
      then have "approx p cb t1 = Some y"
        using step True by simp
      then have IH': "outfile t1 = None \<longrightarrow>
          (\<forall>t'. y = Inr t' \<longrightarrow> outfile t' = None \<and> files t' = files t1)"
        by (rule IH)
      show ?thesis
      proof (intro impI allI)
        fix t'
        assume closed: "outfile t = None" and y: "y = Inr t'"
        from loop_body_unopened [OF Inr closed] have t1: "outfile t1 = None" "files t1 = files t"
          by simp_all
        from IH' t1(1) y have "outfile t' = None \<and> files t' = files t1"
          by blast
        then show "outfile t' = None \<and> files t' = files t"
          using t1(2) by simp
      qed
    qed
  qed
qed

lemma download_file_unopened:
  assumes "room e p = None" and "fs p = None"
  shows "download_file e fs u p cb \<noteq> Some (Inr (True, t'))"
proof
  assume "download_file e fs u p cb = Some (Inr (True, t'))"
  from returned_true_iff [OF this] obtain t where tr: "transfer e fs u p cb = Some (Next t)"
    and eq: "calculate_md5_file (md5 e) (files t) p = content_md5 t"
    by blast
  from tr obtain t1 where bs: "before_stream e fs u p = Next t1"
    and sb: "stream_body e p cb t1 = Some (Next t)"
    by (auto elim: transfer_Next)
  have f1: "files t1 = fs"
    using before_stream_frame [of e fs u p] bs by simp
  from sb obtain t2 where loop: "body_loop p cb (open_outfile e p t1) = Some (Inr t2)"
    and t: "t = invoke_callback cb (close_outfile t2)"
    by (auto simp: stream_body_def split: option.splits sum.splits prod.splits)
  have "outfile (open_outfile e p t1) = None" "files (open_outfile e p t1) = fs"
    using assms(1) f1 by (simp_all add: open_outfile_def)
  with body_loop_unopened [OF loop] have "files t2 = fs"
    by simp
  then have "files t p = None"
    using assms(2) by (simp add: t invoke_callback_def close_outfile_def split: option.splits)
  then have "calculate_md5_file (md5 e) (files t) p = []"
    by (simp add: calculate_md5_file_def)
  then show False
    using eq transfer_Next_facts(2) [OF tr] by simp
qed


text \<open>
  When the probe response gives an empty checksum or the content length 0 (also when
  \<open>Content-Length\<close> is absent), a call ends with the files as they were at the start
  and no request made other than the probes. It returns \<open>false\<close> when the checksum
  extraction returns, and it ends in the fault of the checksum extraction otherwise:
  the checksum is extracted before the content length is looked at.
\<close>

lemma download_file_no_metadata:
  assumes "probed e fs u = Next t"
    and "get_content_md5 (uninit e) (response t) = Inr [] \<or> get_file_size (response t) = Inr 0"
  shows "\<exists>r. download_file e fs u p cb = Some r
      \<and> files (end_state r) = fs \<and> requests (end_state r) = requests t
      \<and> (\<forall>q \<in> set (requests t). fst (snd q) = ''HEAD'')
      \<and> map_sum fst fst r
          = (case get_content_md5 (uninit e) (response t) of
               Inl f \<Rightarrow> Inl f | Inr m \<Rightarrow> Inr False)"
proof -
  have heads: "\<forall>q \<in> set (requests t). fst (snd q) = ''HEAD''"
    using probed_Next(5) [OF assms(1)] by (auto simp: probes_def)
  have fs: "files t = fs"
    using probed_Next(1) [OF assms(1)] .
  show ?thesis
  proof (cases "get_content_md5 (uninit e) (response t)")
    case (Inl f)
    then have "download_file e fs u p cb = Some (Inl (f, t))"
      by (simp add: download_file_def transfer_def before_stream_def assms(1) prepare_fault)
    then show ?thesis
      using Inl heads fs by (simp add: end_state_def)
  next
    case (Inr m)
    then have "get_content_md5 (uninit e) (response t) = Inr []
        \<or> (\<exists>m. get_content_md5 (uninit e) (response t) = Inr m) \<and> get_file_size (response t) = Inr 0"
      using assms(2) by auto
    from prepare_missing [OF this, of p] obtain t' where
      t': "prepare e p t = Return False t'" "files t' = files t" "requests t' = requests t"
      by blast
    have "download_file e fs u p cb = Some (Inr (False, t'))"
      by (simp add: download_file_def transfer_def before_stream_def assms(1) t'(1))
    then show ?thesis
      using Inr heads fs t'(2,3) by (simp add: end_state_def)
  qed
qed

text \<open>
  Claim C5. When the downloaded size is short of 99% of the expected size,
  \<open>download_file\<close> returns \<open>false\<close>; what it logs is an error when the last control
  signal (the answer of the last invocation of the callback, or the initial state
  when there is no callback) says "continue", and a warning about a cancellation
  when it says "stop". No further request is made and the file is left in place.
\<close>

theorem download_file_short:
  assumes "transfer e fs u p cb = Some (Next t)"
    and "size_short (downloaded_file_size t) (file_size t)"
  shows "\<exists>t'. download_file e fs u p cb = Some (Inr (False, t'))
      \<and> log t' =
          [if download (progress_state t)
           then (ERROR, ''Downloaded size is not equal to file size, downloaded size: {}/{}'')
           else (WARN, ''Canceled by user, dowloaded size: {}/{}'')]
      \<and> progress_state t = (case cb of None \<Rightarrow> initial_state e | Some f \<Rightarrow> f (calls t - 1))
      \<and> files t' = files t
      \<and> requests t' = requests t"
  using assms transfer_Next_facts(5,6) [OF assms(1)]
  by (simp add: download_file_def final_checks_def log_add_def)

lemma probe_first:
  assumes "get_web_response e (start_task e fs u) u ''HEAD'' = (Inr resp, t1)" and "resp \<noteq> []"
  shows "\<exists>t. probe e (start_task e fs u) = Next t \<and> response t = resp \<and> files t = fs
      \<and> url t = u \<and> requests t = [(u, ''HEAD'', 0)]"
proof -
  have u: "url (start_task e fs u) = u"
    by (simp add: start_task_def)
  have "t1 = (start_task e fs u)\<lparr>requests := requests (start_task e fs u) @ [(u, ''HEAD'', 0)]\<rparr>"
    using assms(1) by (rule get_web_response_task)
  then have "files t1 = fs" "url t1 = u" "requests t1 = [(u, ''HEAD'', 0)]"
    by (simp_all add: start_task_def)
  then show ?thesis
    using assms by (simp add: probe_def u Let_def)
qed

lemma contains_nonempty: "contains s (c # pat) \<Longrightarrow> s \<noteq> []"
  by (auto simp: contains_def)

text \<open>
  Claim C4. When the first probe response holds the 302 marker: without a \<open>Location\<close>
  that matches the pattern, \<open>download_file\<close> returns \<open>false\<close> after that one probe.
  With one, the captured URL replaces the task URL and is probed once, and no other
  probe follows: in the state in which the part before the loop ends (by a fault, by
  a \<open>return\<close>, or by going on to the loop), in every state at the head of the loop,
  and in the state in which the call ends (by a fault or by returning), the URL is
  the captured one and the requests made are the two probes, followed at most by the
  \<open>GET\<close> of the new URL.
\<close>

theorem download_file_redirect:
  assumes "get_web_response e (start_task e fs u) u ''HEAD'' = (Inr resp, t1)"
    and "contains resp ''HTTP/1.1 302 Found''"
  shows "(search_location resp = None \<longrightarrow>
           (\<exists>t. download_file e fs u p cb = Some (Inr (False, t))
              \<and> requests t = [(u, ''HEAD'', 0)] \<and> files t = fs))
     \<and> (\<forall>location. search_location resp = Some location \<longrightarrow>
           (\<forall>t. t = flow_state (before_stream e fs u p)
                \<or> (\<exists>t0. before_stream e fs u p = Next t0
                      \<and> loop_reaches p cb (open_outfile e p t0) t)
                \<or> (\<exists>r. download_file e fs u p cb = Some r \<and> t = end_state r) \<longrightarrow>
              url t = location
              \<and> (requests t = [(u, ''HEAD'', 0), (location, ''HEAD'', 0)]
                 \<or> (\<exists>off. requests t
                      = [(u, ''HEAD'', 0), (location, ''HEAD'', 0), (location, ''GET'', off)]))))"
proof -
  have "resp \<noteq> []"
    using assms(2) by (rule contains_nonempty)
  from probe_first [OF assms(1) this] obtain t0 where
    t0: "probe e (start_task e fs u) = Next t0" "response t0 = resp" "files t0 = fs"
      "url t0 = u" "requests t0 = [(u, ''HEAD'', 0)]"
    by blast
  have red: "contains (response t0) ''HTTP/1.1 302 Found''"
    using assms(2) t0(2) by simp
  have pr: "probed e fs u = then_flow (follow_redirect e t0) not_found_check"
    by (simp add: probed_def t0(1))
  have lost: "\<exists>t. download_file e fs u p cb = Some (Inr (False, t))
        \<and> requests t = [(u, ''HEAD'', 0)] \<and> files t = fs"
    if "search_location resp = None"
  proof -
    have "search_location (response t0) = None"
      using that by (simp add: t0(2))
    from follow_redirect_lost [OF red this, of e] obtain t where
      t: "follow_redirect e t0 = Return False t" "requests t = requests t0" "files t = files t0"
      by blast
    have "download_file e fs u p cb = Some (Inr (False, t))"
      by (simp add: download_file_def transfer_def before_stream_def pr t(1))
    then show ?thesis
      using t(2,3) t0(3,5) by simp
  qed
  have found: "url t = location
        \<and> (requests t = [(u, ''HEAD'', 0), (location, ''HEAD'', 0)]
           \<or> (\<exists>off. requests t
                = [(u, ''HEAD'', 0), (location, ''HEAD'', 0), (location, ''GET'', off)]))"
    if loc: "search_location resp = Some location"
      and t: "t = flow_state (before_stream e fs u p)
        \<or> (\<exists>t0. before_stream e fs u p = Next t0 \<and> loop_reaches p cb (open_outfile e p t0) t)
        \<or> (\<exists>r. download_file e fs u p cb = Some r \<and> t = end_state r)"
    for location t
  proof -
    have "search_location (response t0) = Some location"
      using loc by (simp add: t0(2))
    note fr = follow_redirect_found [OF red this, of e]
    have probed_facts: "url (flow_state (probed e fs u)) = location
        \<and> requests (flow_state (probed e fs u)) = [(u, ''HEAD'', 0), (location, ''HEAD'', 0)]"
    proof (cases "follow_redirect e t0")
      case (Raise f t')
      then show ?thesis
        using pr fr t0(5) by simp
    next
      case (Return b1 t')
      then show ?thesis
        using pr fr t0(5) by simp
    next
      case (Next t2)
      then show ?thesis
        using pr fr t0(5) not_found_check_state [of t2] by simp
    qed
    have before: "url (flow_state (before_stream e fs u p)) = location
        \<and> (requests (flow_state (before_stream e fs u p))
             = [(u, ''HEAD'', 0), (location, ''HEAD'', 0)]
           \<or> (\<exists>off. requests (flow_state (before_stream e fs u p))
                = [(u, ''HEAD'', 0), (location, ''HEAD'', 0), (location, ''GET'', off)]))"
      using before_stream_frame [of e fs u p] probed_facts by auto
    have same: "url t = url (flow_state (before_stream e fs u p))
        \<and> requests t = requests (flow_state (before_stream e fs u p))"
      using t
    proof (elim disjE exE conjE)
      assume "t = flow_state (before_stream e fs u p)"
      then show ?thesis
        by simp
    next
      fix t0
      assume bs: "before_stream e fs u p = Next t0"
        and "loop_reaches p cb (open_outfile e p t0) t"
      then have "same_plan (open_outfile e p t0) t"
        by (simp add: loop_reaches_plan)
      then have "same_plan t0 t"
        using open_outfile_plan by (blast intro: same_plan_trans)
      then show ?thesis
        using bs by (simp add: same_plan_def)
    next
      fix r
      assume "download_file e fs u p cb = Some r" and "t = end_state r"
      then show ?thesis
        using download_file_state by simp
    qed
    show ?thesis
      using before same by simp
  qed
  show ?thesis
    using lost found by blast
qed

subsection \<open>Runs of the example worlds\<close>

text \<open>The definitions that a run of an example unfolds.\<close>

lemmas eval_defs = download_file_def transfer_def before_stream_def probed_def probe_def
  follow_redirect_def not_found_check_def read_metadata_def prepare_def stream_body_def
  resume_offset_def open_stream_def skip_header_def open_outfile_def write_outfile_def
  close_outfile_def append_file_def invoke_callback_def loop_body_def
  final_checks_def start_task_def log_add_def get_web_response_def init_def parse_url_def
  find_from_def substr_def substr_from_def contains_def ok_sys_def ok_header_def CRLF_def
  served_header_def head_100_def get_99_def no_length_header_def sized_header_def
  ex_net_def ex_redirect_net_def ex_broken_net_def ex_env_def zero_md5_def read_response.simps
  estimate_header_size_def terminated_def c_str_def store_def
  get_content_md5_def search_content_md5_def search_location_def match_here_def md5_class_def
  isspace_def base64_chars_def
  MD5_DIGEST_LENGTH_def array16_def upt_rec convert_md5_bytes_to_str_def hex2_def hex_digit_def
  get_file_size_def search_content_length_def isdigit_def stoll_def
  header_short_def size_short_def less_99_def round_fp_def bit_length.simps
  calculate_md5_file_def MD5_Final_def MD5_Update_def hash_chunks.simps body_loop.simps Let_def
  outcome_def end_state_def flow_state_def

text \<open>
  A complete download. The answer to \<open>HEAD\<close> has 100 bytes and the header block of
  the answer to \<open>GET\<close> has 99, so the header read stays inside the buffer.
\<close>

lemma run_complete:
  "\<exists>t. download_file (ex_env (ex_net head_100 [get_99, ''abc'']) 0) Map.empty
          ''https://h/f'' ''out'' None = Some (Inr (True, t))
       \<and> files t ''out'' = Some ''abc''
       \<and> requests t = [(''https://h/f'', ''HEAD'', 0), (''https://h/f'', ''GET'', 0)]"
  by (simp add: eval_defs)

text \<open>
  The same download from a server whose header block is the same for \<open>GET\<close> as for
  \<open>HEAD\<close>: the header read fills the buffer, and line 419 reads past its end.
\<close>

lemma run_full_buffer:
  "outcome (download_file (ex_env (ex_net head_100 [head_100, ''abc'']) 0) Map.empty
              ''https://h/f'' ''out'' None) = Some (Inl BufferOverread)"
  by (simp add: eval_defs)

text \<open>
  The same download when the output file cannot be opened: the three bytes are
  counted, nothing is on disk, and the call returns \<open>false\<close> from the integrity check.
\<close>

lemma run_unopened:
  "\<exists>t. download_file ((ex_env (ex_net head_100 [get_99, ''abc'']) 0)\<lparr>room := (\<lambda>file_path. None)\<rparr>)
          Map.empty ''https://h/f'' ''out'' None = Some (Inr (False, t))
       \<and> files t ''out'' = None \<and> downloaded_file_size t = 3
       \<and> log t = [(ERROR, ''Downloaded file is corrupted, MD5 Expected: {}; Downloaded: {}'')]"
  by (simp add: eval_defs)


lemma run_short:
  "\<exists>t. transfer (ex_env (ex_net head_100 [get_99, ''a'']) 0) Map.empty ''https://h/f'' ''out'' None
         = Some (Next t)
       \<and> size_short (downloaded_file_size t) (file_size t) \<and> download (progress_state t)"
  by (simp add: eval_defs)

lemma run_cancelled:
  "\<exists>t. transfer (ex_env (ex_net head_100 [get_99, ''a'', ''bc'']) 0) Map.empty ''https://h/f'' ''out''
           (Some (\<lambda>n. \<lparr>download = False, pause = False\<rparr>))
         = Some (Next t)
       \<and> size_short (downloaded_file_size t) (file_size t) \<and> \<not> download (progress_state t)"
  by (simp add: eval_defs)

lemma run_redirect_probe:
  shows "\<exists>t1. get_web_response
           (ex_env (ex_redirect_net (found_302 ''Location: https://m/f'') head_100 [get_99, ''abc'']) 0)
           (start_task
              (ex_env (ex_redirect_net (found_302 ''Location: https://m/f'') head_100 [get_99, ''abc'']) 0)
              Map.empty ''https://h/f'')
           ''https://h/f'' ''HEAD''
         = (Inr (found_302 ''Location: https://m/f''), t1)"
    and "contains (found_302 ''Location: https://m/f'') ''HTTP/1.1 302 Found''"
    and "search_location (found_302 ''Location: https://m/f'') = Some ''https://m/f''"
  by (simp_all add: eval_defs found_302_def)

lemma run_redirect:
  "\<exists>t. download_file
          (ex_env (ex_redirect_net (found_302 ''Location: https://m/f'') head_100 [get_99, ''abc'']) 0)
          Map.empty ''https://h/f'' ''out'' None
        = Some (Inr (True, t))"
  by (simp add: eval_defs found_302_def)

lemma run_lost_probe:
  shows "\<exists>t1. get_web_response
           (ex_env (ex_redirect_net (found_302 ''Server: x'') head_100 [get_99, ''abc'']) 0)
           (start_task
              (ex_env (ex_redirect_net (found_302 ''Server: x'') head_100 [get_99, ''abc'']) 0)
              Map.empty ''https://h/f'')
           ''https://h/f'' ''HEAD''
         = (Inr (found_302 ''Server: x''), t1)"
    and "contains (found_302 ''Server: x'') ''HTTP/1.1 302 Found''"
    and "search_location (found_302 ''Server: x'') = None"
  by (simp_all add: eval_defs found_302_def)

text \<open>
  Claim C1: \<open>download_file\<close> returns \<open>true\<close> only when both final checks succeed, and
  every other path through the function returns \<open>false\<close>. The first half holds
  (\<open>returned_true_iff\<close>). The second half fails: some paths do not return. When the
  connection of the probe breaks after the header block, \<open>SSL_read\<close> returns \<open>-1\<close>,
  which the reading loop of \<open>get_web_response\<close> takes for a byte count, and the call
  leaves by \<open>std::length_error\<close>. When the header declares a content length of
  \<open>2^63\<close>, \<open>std::stoll\<close> throws \<open>std::out_of_range\<close>. Neither is caught.
\<close>

theorem download_file_raises:
  "outcome (download_file (ex_env (ex_broken_net (ok_header zero_md5)) 0) Map.empty
              ''https://h/f'' ''out'' None) = Some (Inl LengthError)
   \<and> outcome (download_file
                (ex_env (ex_net (sized_header ''9223372036854775808'' zero_md5) []) 0) Map.empty
                ''https://h/f'' ''out'' None) = Some (Inl OutOfRange)"
  by (simp add: eval_defs)

text \<open>
  Claim C3: when the probe response gives an empty checksum or the content length 0,
  \<open>download_file\<close> returns \<open>false\<close> before the output file is opened. For a response
  without \<open>Content-Length\<close> whose checksum value decodes to 18 bytes the content
  length is 0, but the call does not return \<open>false\<close>: the checksum is extracted
  first, and the decoding loop writes past the end of \<open>md5_bytes\<close>.
\<close>

theorem download_file_no_length_overflow:
  "search_content_length (no_length_header ''AAAAAAAAAAAAAAAAAAAAAAAA'') = None
   \<and> get_file_size (no_length_header ''AAAAAAAAAAAAAAAAAAAAAAAA'') = Inr 0
   \<and> response (flow_state (probed
         (ex_env (ex_net (no_length_header ''AAAAAAAAAAAAAAAAAAAAAAAA'') []) 0)
         [''out'' \<mapsto> ''a''] ''https://h/f''))
       = no_length_header ''AAAAAAAAAAAAAAAAAAAAAAAA''
   \<and> outcome (download_file
         (ex_env (ex_net (no_length_header ''AAAAAAAAAAAAAAAAAAAAAAAA'') []) 0)
         [''out'' \<mapsto> ''a''] ''https://h/f'' ''out'' None) = Some (Inl BufferOverflow)"
  by (simp add: eval_defs)


theorem download_file_redirect_witness:
  "(\<exists>t. download_file
          (ex_env (ex_redirect_net (found_302 ''Location: https://m/f'') head_100 [get_99, ''abc'']) 0)
          Map.empty ''https://h/f'' ''out'' None = Some (Inr (True, t))
       \<and> url t = ''https://m/f''
       \<and> (requests t = [(''https://h/f'', ''HEAD'', 0), (''https://m/f'', ''HEAD'', 0)]
          \<or> (\<exists>off. requests t = [(''https://h/f'', ''HEAD'', 0), (''https://m/f'', ''HEAD'', 0),
                (''https://m/f'', ''GET'', off)])))
   \<and> (\<exists>t. download_file
          (ex_env (ex_redirect_net (found_302 ''Server: x'') head_100 [get_99, ''abc'']) 0)
          Map.empty ''https://h/f'' ''out'' None = Some (Inr (False, t))
       \<and> requests t = [(''https://h/f'', ''HEAD'', 0)])"
proof -
  let ?e1 = "ex_env (ex_redirect_net (found_302 ''Location: https://m/f'') head_100 [get_99, ''abc'']) 0"
  let ?e2 = "ex_env (ex_redirect_net (found_302 ''Server: x'') head_100 [get_99, ''abc'']) 0"
  from run_redirect_probe(1) obtain t1 where
    p1: "get_web_response ?e1 (start_task ?e1 Map.empty ''https://h/f'') ''https://h/f'' ''HEAD''
          = (Inr (found_302 ''Location: https://m/f''), t1)"
    by blast
  from run_redirect obtain t where
    t: "download_file ?e1 Map.empty ''https://h/f'' ''out'' None = Some (Inr (True, t))"
    by blast
  then have ends: "\<exists>r. download_file ?e1 Map.empty ''https://h/f'' ''out'' None = Some r
      \<and> t = end_state r"
    by (simp add: end_state_def)
  from download_file_redirect [OF p1 run_redirect_probe(2), of "''out''" None]
    run_redirect_probe(3) ends
  have a: "url t = ''https://m/f''
      \<and> (requests t = [(''https://h/f'', ''HEAD'', 0), (''https://m/f'', ''HEAD'', 0)]
        \<or> (\<exists>off. requests t = [(''https://h/f'', ''HEAD'', 0), (''https://m/f'', ''HEAD'', 0),
              (''https://m/f'', ''GET'', off)]))"
    by blast
  from run_lost_probe(1) obtain t2 where
    p2: "get_web_response ?e2 (start_task ?e2 Map.empty ''https://h/f'') ''https://h/f'' ''HEAD''
          = (Inr (found_302 ''Server: x''), t2)"
    by blast
  from download_file_redirect [OF p2 run_lost_probe(2), of "''out''" None] run_lost_probe(3)
  have b: "\<exists>t. download_file ?e2 Map.empty ''https://h/f'' ''out'' None = Some (Inr (False, t))
      \<and> requests t = [(''https://h/f'', ''HEAD'', 0)]"
    by blast
  show ?thesis
    using t a b by blast
qed

theorem download_file_short_witness:
  "(\<exists>t t'. transfer (ex_env (ex_net head_100 [get_99, ''a'']) 0) Map.empty
               ''https://h/f'' ''out'' None = Some (Next t)
       \<and> size_short (downloaded_file_size t) (file_size t) \<and> download (progress_state t)
       \<and> download_file (ex_env (ex_net head_100 [get_99, ''a'']) 0) Map.empty
               ''https://h/f'' ''out'' None = Some (Inr (False, t'))
       \<and> log t' = [(ERROR, ''Downloaded size is not equal to file size, downloaded size: {}/{}'')])
   \<and> (\<exists>t t'. transfer (ex_env (ex_net head_100 [get_99, ''a'', ''bc'']) 0) Map.empty
               ''https://h/f'' ''out'' (Some (\<lambda>n. \<lparr>download = False, pause = False\<rparr>))
             = Some (Next t)
       \<and> size_short (downloaded_file_size t) (file_size t) \<and> \<not> download (progress_state t)
       \<and> download_file (ex_env (ex_net head_100 [get_99, ''a'', ''bc'']) 0) Map.empty
               ''https://h/f'' ''out'' (Some (\<lambda>n. \<lparr>download = False, pause = False\<rparr>))
             = Some (Inr (False, t'))
       \<and> log t' = [(WARN, ''Canceled by user, dowloaded size: {}/{}'')])"
proof -
  from run_short obtain t1 where
    t1: "transfer (ex_env (ex_net head_100 [get_99, ''a'']) 0) Map.empty
           ''https://h/f'' ''out'' None = Some (Next t1)"
      "size_short (downloaded_file_size t1) (file_size t1)" "download (progress_state t1)"
    by blast
  from run_cancelled obtain t2 where
    t2: "transfer (ex_env (ex_net head_100 [get_99, ''a'', ''bc'']) 0) Map.empty
           ''https://h/f'' ''out'' (Some (\<lambda>n. \<lparr>download = False, pause = False\<rparr>)) = Some (Next t2)"
      "size_short (downloaded_file_size t2) (file_size t2)" "\<not> download (progress_state t2)"
    by blast
  from download_file_short [OF t1(1,2)] t1(3) obtain t1' where
    "download_file (ex_env (ex_net head_100 [get_99, ''a'']) 0) Map.empty
       ''https://h/f'' ''out'' None = Some (Inr (False, t1'))"
    "log t1' = [(ERROR, ''Downloaded size is not equal to file size, downloaded size: {}/{}'')]"
    by auto
  moreover from download_file_short [OF t2(1,2)] t2(3) obtain t2' where
    "download_file (ex_env (ex_net head_100 [get_99, ''a'', ''bc'']) 0) Map.empty
       ''https://h/f'' ''out'' (Some (\<lambda>n. \<lparr>download = False, pause = False\<rparr>)) = Some (Inr (False, t2'))"
    "log t2' = [(WARN, ''Canceled by user, dowloaded size: {}/{}'')]"
    by auto
  ultimately show ?thesis
    using t1 t2 by blast
qed

end
